theory Spec2Isabelle
  imports Complex_Main "HOL-Library.Sublist"
begin

section \<open>Strings and paths\<close>

text \<open>
  Python strings are modelled as \<open>string\<close> (character lists over single bytes); the
  substring test \<^verbatim>\<open>a in b\<close> on two strings is \<^const>\<open>sublist\<close>.
\<close>

definition lower_char :: "char \<Rightarrow> char" where
  "lower_char c =
     (if 65 \<le> (of_char c :: nat) \<and> (of_char c :: nat) \<le> 90
      then char_of ((of_char c :: nat) + 32) else c)"

text \<open>\<^verbatim>\<open>str.lower()\<close>, on the ASCII range.\<close>

definition lower :: "string \<Rightarrow> string" where
  "lower s = map lower_char s"

text \<open>\<^verbatim>\<open>sep.join(parts)\<close>.\<close>

fun join :: "string \<Rightarrow> string list \<Rightarrow> string" where
  "join sep [] = []"
| "join sep [x] = x"
| "join sep (x # y # ys) = x @ sep @ join sep (y # ys)"

text \<open>\<^verbatim>\<open>s.split(c)\<close> for a one-character separator.\<close>

fun split_on :: "char \<Rightarrow> string \<Rightarrow> string list" where
  "split_on c [] = [ [] ]"
| "split_on c (x # xs) =
     (if x = c then [] # split_on c xs
      else (case split_on c xs of [] \<Rightarrow> [ [x] ] | w # ws \<Rightarrow> (x # w) # ws))"

text \<open>\<^verbatim>\<open>s.replace(old, new)\<close> for a one-character \<open>old\<close>.\<close>

definition replace_char :: "char \<Rightarrow> string \<Rightarrow> string \<Rightarrow> string" where
  "replace_char c new s = concat (map (\<lambda>x. if x = c then new else [x]) s)"

text \<open>\<^verbatim>\<open>str(n)\<close> for a non-negative integer.\<close>

definition digit_char :: "nat \<Rightarrow> char" where
  "digit_char d = char_of (48 + d)"

function str_nat :: "nat \<Rightarrow> string" where
  "str_nat n = (if n < 10 then [digit_char n] else str_nat (n div 10) @ [digit_char (n mod 10)])"
  by pat_completeness auto
termination
  by (relation "measure id") auto

declare str_nat.simps [simp del]

subsection \<open>\<^verbatim>\<open>pathlib.Path\<close> on a POSIX system\<close>

text \<open>
  \<^verbatim>\<open>Path(s)\<close> splits \<open>s\<close> at \<open>/\<close> and drops empty and \<open>.\<close> components; a leading
  slash is the root (exactly two leading slashes are kept as \<open>//\<close>).
\<close>

definition path_root :: "string \<Rightarrow> string" where
  "path_root s =
     (if take 1 s \<noteq> ''/'' then ''''
      else if take 2 s = ''//'' \<and> take 3 s \<noteq> ''///'' then ''//''
      else ''/'')"

definition path_comps :: "string \<Rightarrow> string list" where
  "path_comps s = filter (\<lambda>p. p \<noteq> [] \<and> p \<noteq> ''.'') (split_on CHR ''/'' s)"

text \<open>\<^verbatim>\<open>Path(s).parts\<close>: the root, when there is one, is the first part.\<close>

definition path_parts :: "string \<Rightarrow> string list" where
  "path_parts s = (if path_root s = [] then [] else [path_root s]) @ path_comps s"

text \<open>\<^verbatim>\<open>Path(s).name\<close>: the last component, empty when there is none.\<close>

definition path_name :: "string \<Rightarrow> string" where
  "path_name s = (case rev (path_comps s) of [] \<Rightarrow> [] | n # _ \<Rightarrow> n)"

text \<open>
  \<^verbatim>\<open>Path(s).suffix\<close>: with \<open>i = name.rfind('.')\<close>, the text from \<open>i\<close> on when
  \<open>0 < i < len(name) - 1\<close>, and empty otherwise. So a name that only starts with a dot,
  such as \<open>.env\<close>, has no suffix.
\<close>

definition name_suffix :: "string \<Rightarrow> string" where
  "name_suffix name =
     (let ext = rev (takeWhile (\<lambda>c. c \<noteq> CHR ''.'') (rev name))
      in if CHR ''.'' \<in> set name \<and> length ext + 1 < length name \<and> ext \<noteq> []
         then CHR ''.'' # ext else [])"

definition path_suffix :: "string \<Rightarrow> string" where
  "path_suffix s = name_suffix (path_name s)"

text \<open>\<^verbatim>\<open>Path(s).as_posix()\<close>.\<close>

definition as_posix :: "string \<Rightarrow> string" where
  "as_posix s =
     (if path_root s = [] \<and> path_comps s = [] then ''.''
      else path_root s @ join ''/'' (path_comps s))"

section \<open>\<^verbatim>\<open>repo_loader\<close>: exclusion rules\<close>

definition EXCLUDE_EXTENSIONS :: "string list" where
  "EXCLUDE_EXTENSIONS =
     [''.lock'', ''.log'', ''.env'', ''.so'', ''.o'', ''.a'', ''.dll'', ''.exe'', ''.ipynb'',
      ''.svg'', ''.png'', ''.jpg'', ''.jpeg'', ''.gif'', ''.webp'', ''.ico'', ''.woff'',
      ''.woff2'', ''.ttf'', ''.eot'', ''.otf'']"

definition EXCLUDE_FILENAMES :: "string list" where
  "EXCLUDE_FILENAMES = [''.gitignore'', ''.DS_Store'', ''.gitattributes'']"

definition EXCLUDE_PATTERNS :: "string list" where
  "EXCLUDE_PATTERNS =
     [''__pycache__/'', ''.git/'', ''node_modules/'', ''dist/'', ''build/'', ''.vscode/'',
      ''.idea/'']"

definition is_excluded :: "string \<Rightarrow> bool" where
  "is_excluded filepath =
     (if lower (path_name filepath) \<in> set EXCLUDE_FILENAMES
         \<or> lower (path_suffix filepath) \<in> set EXCLUDE_EXTENSIONS
      then True
      else let normalized_path = as_posix filepath @ ''/''
           in if \<exists>pattern \<in> set EXCLUDE_PATTERNS. sublist pattern normalized_path
              then True else False)"

section \<open>The vector store\<close>

text \<open>
  The collection is the external vector store of the design (a persistent store keyed by
  string id, with \<open>upsert\<close>, \<open>get\<close>, \<open>delete\<close> and \<open>count\<close>). It is modelled as an
  association list from id to the stored document and metadata; the embedding vector is
  computed by the external model and plays no part below. \<open>upsert\<close> overwrites by id.
\<close>

record metadata =
  full_path :: string
  relative_path :: string
  is_dir :: bool
  size_bytes :: "nat option"
  modified_time :: real
  source_type :: string
  repo_url :: "string option"

type_synonym item = "string \<times> metadata"

type_synonym collection = "(string \<times> item) list"

definition coll_count :: "collection \<Rightarrow> nat" where
  "coll_count c = length c"

fun upsert1 :: "string \<Rightarrow> item \<Rightarrow> collection \<Rightarrow> collection" where
  "upsert1 k v [] = [(k, v)]"
| "upsert1 k v (p # ps) = (if fst p = k then (k, v) # ps else p # upsert1 k v ps)"

text \<open>
  \<^verbatim>\<open>collection.upsert(documents=docs, metadatas=metadatas, ids=ids)\<close>: the three lists
  grow in lockstep in the source, so the model passes one list of \<open>(id, (doc, meta))\<close>.
\<close>

fun coll_upsert :: "(string \<times> item) list \<Rightarrow> collection \<Rightarrow> collection" where
  "coll_upsert [] c = c"
| "coll_upsert (e # es) c = coll_upsert es (upsert1 (fst e) (snd e) c)"

definition coll_get_ids :: "collection \<Rightarrow> string list" where
  "coll_get_ids c = map fst c"

definition coll_delete :: "string list \<Rightarrow> collection \<Rightarrow> collection" where
  "coll_delete ids c = filter (\<lambda>p. fst p \<notin> set ids) c"

record explorer =
  collection :: collection
  is_cancelled :: bool

section \<open>The outside world of an indexing run\<close>

datatype node = FileNode string | DirNode string "node list"

record stat_result =
  st_size :: nat
  st_mtime :: real

record file_meta =
  fm_path :: string
  fm_size :: "nat option"

text \<open>
  The value of the \<open>content-length\<close> header as the source uses it: absent or empty (falsy),
  a text \<^verbatim>\<open>int()\<close> parses, or a text \<^verbatim>\<open>int()\<close> rejects with \<open>ValueError\<close>.
\<close>

datatype content_length = NoLength | Length int | BadLength

text \<open>
  \<^verbatim>\<open>requests.get(url, stream=True)\<close>: the request or its status check raises
  \<open>RequestException\<close>, or a response arrives with a header, the chunks that
  \<open>iter_content\<close> delivers, and possibly a \<open>RequestException\<close> after them.
\<close>

datatype http_response =
  RequestError string
| Response content_length "string list" "string option"

text \<open>
  What \<^verbatim>\<open>os.stat\<close> does on a path: it returns a result, it raises
  \<open>FileNotFoundError\<close> (the entry vanished, or is a dangling link), or it raises another
  \<open>OSError\<close> (a loop of symbolic links, a directory without search permission).
\<close>

datatype stat_outcome = StatOk stat_result | StatNotFound | StatRaises

text \<open>
  The exception that leaves an indexing run: an \<open>OSError\<close> of \<^verbatim>\<open>os.stat\<close> other than
  \<open>FileNotFoundError\<close>. The repository side catches every exception of its requests, and
  the vector store is taken to answer every call.
\<close>

datatype os_error = OSError

text \<open>
  Everything an indexing run reads from outside. \<open>os_walk\<close> gives the directory tree
  below a root as \<^verbatim>\<open>os.walk\<close> lists it; \<open>os_stat\<close> is the outcome of
  \<^verbatim>\<open>os.stat\<close>; \<open>read_text\<close> is \<open>None\<close> where opening or reading the file
  raises. \<open>repo_api\<close> stands for the URL parsing and the hosting API calls of
  \<^verbatim>\<open>get_repo_files\<close> up to the unfiltered file list and the content base URL, or their
  error message; \<open>content_url base p\<close> is \<^verbatim>\<open>urljoin(base, quote(p))\<close>.
\<close>

record world =
  os_isdir :: "string \<Rightarrow> bool"
  os_walk :: "string \<Rightarrow> node list"
  os_stat :: "string \<Rightarrow> stat_outcome"
  read_text :: "string \<Rightarrow> string option"
  repo_api :: "string \<Rightarrow> string + (file_meta list \<times> string)"
  github_token :: bool
  content_url :: "string \<Rightarrow> string \<Rightarrow> string"
  http_get :: "string \<Rightarrow> http_response"
  utf8_decode :: "string \<Rightarrow> string"
  clock :: real

section \<open>\<^verbatim>\<open>repo_loader\<close>: file list and content fetch\<close>

definition no_files_message :: "bool \<Rightarrow> bool \<Rightarrow> string" where
  "no_files_message is_hf token =
     ''No files found in '' @ (if is_hf then ''Hugging Face Space'' else ''GitHub repository'')
       @ ''.''
       @ (if \<not> is_hf \<and> \<not> token
          then '' If this is a private repo or you've hit a rate limit, please set a GITHUB_TOKEN.''
          else [])"

definition get_repo_files :: "world \<Rightarrow> string \<Rightarrow> string + (file_meta list \<times> string)" where
  "get_repo_files w url =
     (case repo_api w url of
        Inl error \<Rightarrow> Inl error
      | Inr (files, base_url) \<Rightarrow>
          if files = []
          then Inl (no_files_message (sublist ''huggingface.co'' (lower url)) (github_token w))
          else Inr (filter (\<lambda>f. \<not> is_excluded (fm_path f)) files, base_url))"

datatype fetch_error =
  TooLargeHeader int
| TooLargeStreaming
| AppearsBinary
| NetworkError string
| ReadError

fun stream_content :: "nat \<Rightarrow> string \<Rightarrow> string list \<Rightarrow> string option \<Rightarrow> fetch_error + string"
where
  "stream_content max_size content [] failure =
     (case failure of Some e \<Rightarrow> Inl (NetworkError e) | None \<Rightarrow> Inr content)"
| "stream_content max_size content (chunk # chunks) failure =
     (let content' = content @ chunk
      in if length content' > max_size then Inl TooLargeStreaming
         else stream_content max_size content' chunks failure)"

definition check_binary :: "(string \<Rightarrow> string) \<Rightarrow> string \<Rightarrow> fetch_error + string" where
  "check_binary decode content =
     (if CHR 0x00 \<in> set (take 1024 content) then Inl AppearsBinary else Inr (decode content))"

definition get_remote_file_content ::
  "nat \<Rightarrow> (string \<Rightarrow> string) \<Rightarrow> http_response \<Rightarrow> fetch_error + string" where
  "get_remote_file_content max_size decode r =
     (case r of
        RequestError e \<Rightarrow> Inl (NetworkError e)
      | Response content_length chunks failure \<Rightarrow>
          (case content_length of
             BadLength \<Rightarrow> Inl ReadError
           | Length n \<Rightarrow>
               if n > int max_size then Inl (TooLargeHeader n)
               else (case stream_content max_size [] chunks failure of
                       Inl err \<Rightarrow> Inl err
                     | Inr content \<Rightarrow> check_binary decode content)
           | NoLength \<Rightarrow>
               (case stream_content max_size [] chunks failure of
                  Inl err \<Rightarrow> Inl err
                | Inr content \<Rightarrow> check_binary decode content)))"

section \<open>\<^verbatim>\<open>SemanticExplorer\<close>: the indexing generators\<close>

text \<open>
  The status strings an indexing run yields, one constructor per f-string of the source;
  \<open>render\<close> gives the text.
\<close>

datatype status =
  FetchingList
| ErrorMsg string
| FoundFiles nat
| NotADirectory
| Scanning
| CancelledScan nat
| ScanComplete nat
| ProcessingBatch nat nat nat
| BuildCancelled nat
| BuildComplete nat

fun render :: "status \<Rightarrow> string" where
  "render FetchingList = ''Fetching repository file list...''"
| "render (ErrorMsg error) = ''Error: '' @ error"
| "render (FoundFiles total_files) = ''Found '' @ str_nat total_files @ '' files to process.''"
| "render NotADirectory = ''Error: Provided path is not a valid directory.''"
| "render Scanning = ''Scanning directories...''"
| "render (CancelledScan n) = ''Build cancelled. DB size: '' @ str_nat n"
| "render (ScanComplete total_paths) =
     ''Scan complete. Found '' @ str_nat total_paths @ '' items to process.''"
| "render (ProcessingBatch b k n) =
     ''Processing batch '' @ str_nat b @ ''... ('' @ str_nat k @ ''/'' @ str_nat n @ '')''"
| "render (BuildCancelled final_count) =
     ''Build cancelled. The database now contains '' @ str_nat final_count @ '' items.''"
| "render (BuildComplete final_count) =
     ''Index build complete. The database now contains '' @ str_nat final_count @ '' items.''"

text \<open>
  A run is a generator: it is suspended at every \<^verbatim>\<open>yield\<close>, and the driver that
  pulls it may call \<^verbatim>\<open>cancel_indexing\<close> while it is suspended. A schedule says at
  which yields (counted from 0) the driver does so. The state of a run is the explorer
  object, the statuses yielded so far, and the exception that escaped the generator, if
  one did: after it the generator yields nothing more. The progress callback is left out
  (\<^verbatim>\<open>progress_callback=None\<close>).
\<close>

type_synonym schedule = "nat \<Rightarrow> bool"

record run =
  self :: explorer
  yielded :: "status list"
  raised :: "os_error option"

definition cancel_indexing :: "explorer \<Rightarrow> explorer" where
  "cancel_indexing e = e\<lparr>is_cancelled := True\<rparr>"

definition yield :: "schedule \<Rightarrow> status \<Rightarrow> run \<Rightarrow> run" where
  "yield sched msg g =
     g\<lparr>self := (if sched (length (yielded g)) then cancel_indexing (self g) else self g),
       yielded := yielded g @ [msg]\<rparr>"

definition count :: "run \<Rightarrow> nat" where
  "count g = coll_count (collection (self g))"

text \<open>
  The batch loop of both generators,
  \<^verbatim>\<open>for i in range(0, total, batch_size): if self.is_cancelled: break; ...\<close>,
  with the batch size and the processing of one batch as parameters (the batch size is the
  constant 50 or 128 in the source, never 0). Processing a batch gives the collection after
  its upsert, or raises: then the exception leaves the generator, after the status of the
  batch and before its upsert.
\<close>

function batch_loop ::
  "schedule \<Rightarrow> nat \<Rightarrow> ('a list \<Rightarrow> collection \<Rightarrow> os_error + collection) \<Rightarrow> 'a list \<Rightarrow> nat
     \<Rightarrow> run \<Rightarrow> run"
where
  "batch_loop sched batch_size process items i g =
     (if batch_size = 0 \<or> length items \<le> i then g
      else if is_cancelled (self g) then g
      else let total_n = length items;
               status_message =
                 ProcessingBatch (i div batch_size + 1) (min (i + batch_size) total_n) total_n;
               g1 = yield sched status_message g;
               batch = take batch_size (drop i items)
           in case process batch (collection (self g1)) of
                Inl err \<Rightarrow> g1\<lparr>raised := Some err\<rparr>
              | Inr c \<Rightarrow>
                  batch_loop sched batch_size process items (i + batch_size)
                    (g1\<lparr>self := (self g1)\<lparr>collection := c\<rparr>\<rparr>))"
  by pat_completeness auto
termination
  by (relation "measure (\<lambda>(sched, batch_size, process, items, i, g). length items - i)") auto

declare batch_loop.simps [simp del]

definition final_status :: "schedule \<Rightarrow> run \<Rightarrow> run" where
  "final_status sched g =
     (let final_count = count g
      in if is_cancelled (self g) then yield sched (BuildCancelled final_count) g
         else yield sched (BuildComplete final_count) g)"

subsection \<open>Repository indexing\<close>

definition repo_id :: "string \<Rightarrow> string \<Rightarrow> string" where
  "repo_id url file_path = ''repo::'' @ url @ ''::'' @ file_path"

definition repo_doc :: "string \<Rightarrow> string \<Rightarrow> string" where
  "repo_doc file_path snippet =
     ''Type: File. Path: '' @ replace_char CHR ''/'' '' '' file_path
       @ ''. Tree: '' @ join '' > '' (path_parts file_path)
       @ ''. Content Snippet: '' @ snippet"

text \<open>One file of a batch: \<open>None\<close> when the fetch reports an error and the file is skipped.\<close>

definition repo_entry :: "world \<Rightarrow> string \<Rightarrow> string \<Rightarrow> file_meta \<Rightarrow> (string \<times> item) option" where
  "repo_entry w url content_base_url file_meta =
     (let file_path = fm_path file_meta;
          file_url = content_url w content_base_url file_path
      in case get_remote_file_content 1000000 (utf8_decode w) (http_get w file_url) of
           Inl err \<Rightarrow> None
         | Inr content \<Rightarrow>
             Some (repo_id url file_path,
                   (repo_doc file_path (take 500 content),
                    \<lparr>full_path = file_url, relative_path = file_path, is_dir = False,
                     size_bytes = fm_size file_meta, modified_time = clock w,
                     source_type = ''repository'', repo_url = Some url\<rparr>)))"

text \<open>
  The body of a batch loop. The entries are built one item at a time: a skipped item gives
  none, and an exception ends the batch before its upsert. The upsert is left out when no
  entry was built.
\<close>

fun build_docs ::
  "('a \<Rightarrow> os_error + (string \<times> item) option) \<Rightarrow> 'a list \<Rightarrow> os_error + (string \<times> item) list"
where
  "build_docs entry [] = Inr []"
| "build_docs entry (x # xs) =
     (case entry x of
        Inl err \<Rightarrow> Inl err
      | Inr None \<Rightarrow> build_docs entry xs
      | Inr (Some doc) \<Rightarrow>
          (case build_docs entry xs of
             Inl err \<Rightarrow> Inl err
           | Inr docs \<Rightarrow> Inr (doc # docs)))"

definition process_batch ::
  "('a \<Rightarrow> os_error + (string \<times> item) option) \<Rightarrow> 'a list \<Rightarrow> collection
     \<Rightarrow> os_error + collection" where
  "process_batch entry batch c =
     (case build_docs entry batch of
        Inl err \<Rightarrow> Inl err
      | Inr docs \<Rightarrow> Inr (if docs \<noteq> [] then coll_upsert docs c else c))"

text \<open>
  The fetch of a remote file catches every exception, so building the entry of a remote
  file does not raise.
\<close>

definition index_repository :: "world \<Rightarrow> schedule \<Rightarrow> string \<Rightarrow> run \<Rightarrow> run" where
  "index_repository w sched url g =
     (let g1 = yield sched FetchingList g
      in case get_repo_files w url of
           Inl error \<Rightarrow> yield sched (ErrorMsg error) g1
         | Inr (files, content_base_url) \<Rightarrow>
             let g2 = yield sched (FoundFiles (length files)) g1;
                 g3 = batch_loop sched 50
                        (process_batch (\<lambda>file_meta. Inr (repo_entry w url content_base_url file_meta)))
                        files 0 g2
             in final_status sched g3)"

subsection \<open>Local indexing\<close>

definition pruned_dirs :: "string list" where
  "pruned_dirs = [''.git'', ''__pycache__'', ''.vscode'', ''node_modules'', ''.idea'', ''chroma_db'']"

fun file_names :: "node list \<Rightarrow> string list" where
  "file_names [] = []"
| "file_names (FileNode n # ns) = n # file_names ns"
| "file_names (DirNode n cs # ns) = file_names ns"

fun dir_names :: "node list \<Rightarrow> string list" where
  "dir_names [] = []"
| "dir_names (FileNode n # ns) = dir_names ns"
| "dir_names (DirNode n cs # ns) = n # dir_names ns"

text \<open>
  The enumeration loop over \<^verbatim>\<open>os.walk(root_path)\<close>. An entry is kept as the list of
  names that lead to it from the root. The flag is tested at each visited directory; the
  loop body has no \<^verbatim>\<open>yield\<close>, so the flag cannot change while the loop runs, and a
  \<^verbatim>\<open>break\<close> leaves \<open>all_paths\<close> as it is.
\<close>

fun walk :: "bool \<Rightarrow> string list \<Rightarrow> node list \<Rightarrow> string list list"
  and walk_dirs :: "bool \<Rightarrow> string list \<Rightarrow> node list \<Rightarrow> string list list" where
  "walk cancelled here children =
     (if cancelled then []
      else let dirs = filter (\<lambda>d. d \<notin> set pruned_dirs) (dir_names children)
           in map (\<lambda>name. here @ [name]) (file_names children @ dirs)
                @ walk_dirs cancelled here children)"
| "walk_dirs cancelled here [] = []"
| "walk_dirs cancelled here (FileNode n # ns) = walk_dirs cancelled here ns"
| "walk_dirs cancelled here (DirNode n cs # ns) =
     (if n \<in> set pruned_dirs then [] else walk cancelled (here @ [n]) cs)
       @ walk_dirs cancelled here ns"

declare walk.simps(1) [simp del]

text \<open>\<^verbatim>\<open>os.path.join(a, b)\<close> on a POSIX system.\<close>

definition os_path_join :: "string \<Rightarrow> string \<Rightarrow> string" where
  "os_path_join a b =
     (if take 1 b = ''/'' then b
      else if a = [] \<or> last a = CHR ''/'' then a @ b
      else a @ ''/'' @ b)"

definition local_id :: "string \<Rightarrow> string" where
  "local_id path_str = ''local::'' @ path_str"

definition get_file_snippet :: "world \<Rightarrow> string \<Rightarrow> string" where
  "get_file_snippet w path =
     (case read_text w path of
        None \<Rightarrow> []
      | Some text \<Rightarrow> if CHR 0x00 \<in> set (take 1024 text) then [] else take 500 text)"

definition local_doc :: "world \<Rightarrow> string \<Rightarrow> string \<Rightarrow> bool \<Rightarrow> string" where
  "local_doc w path_str rel dir =
     ''Type: '' @ (if dir then ''Folder'' else ''File'')
       @ ''. Path: '' @ replace_char CHR ''/'' '' '' rel
       @ ''. Tree: '' @ join '' > '' (path_parts rel) @ ''. ''
       @ (if \<not> dir then ''Content Snippet: '' @ get_file_snippet w path_str else [])"

text \<open>
  One path of a batch. \<open>path_str\<close> is the chain of \<^verbatim>\<open>os.path.join\<close> calls that
  \<^verbatim>\<open>os.walk\<close> and the enumeration loop make from the root; \<^verbatim>\<open>os.path.relpath\<close> of it
  against the root is the names joined by the separator. The source catches
  \<open>FileNotFoundError\<close> only: the path is skipped. Any other error of \<^verbatim>\<open>os.stat\<close>
  is raised.
\<close>

definition local_entry ::
  "world \<Rightarrow> string \<Rightarrow> string list \<Rightarrow> os_error + (string \<times> item) option" where
  "local_entry w root_path names =
     (let path_str = foldl os_path_join root_path names
      in case os_stat w path_str of
           StatRaises \<Rightarrow> Inl OSError
         | StatNotFound \<Rightarrow> Inr None
         | StatOk stat \<Rightarrow>
             let dir = os_isdir w path_str;
                 rel = join ''/'' names
             in Inr (Some (local_id path_str,
                           (local_doc w path_str rel dir,
                            \<lparr>full_path = path_str, relative_path = rel, is_dir = dir,
                             size_bytes = Some (st_size stat), modified_time = st_mtime stat,
                             source_type = ''local'', repo_url = None\<rparr>))))"

definition index_local_directory :: "world \<Rightarrow> schedule \<Rightarrow> string \<Rightarrow> run \<Rightarrow> run" where
  "index_local_directory w sched root_path g =
     (if \<not> os_isdir w root_path then yield sched NotADirectory g
      else let g1 = yield sched Scanning g;
               all_paths = walk (is_cancelled (self g1)) [] (os_walk w root_path)
           in if is_cancelled (self g1) then yield sched (CancelledScan (count g1)) g1
              else let g2 = yield sched (ScanComplete (length all_paths)) g1;
                       g3 = batch_loop sched 128
                              (process_batch (local_entry w root_path)) all_paths 0 g2
                   in if raised g3 \<noteq> None then g3 else final_status sched g3)"

subsection \<open>The entry point\<close>

definition index_directory :: "world \<Rightarrow> schedule \<Rightarrow> string \<Rightarrow> explorer \<Rightarrow> run" where
  "index_directory w sched path_or_url e =
     (let g = \<lparr>self = e\<lparr>is_cancelled := False\<rparr>, yielded = [], raised = None\<rparr>
      in if sublist ''github.com'' path_or_url \<or> sublist ''huggingface.co'' path_or_url
         then index_repository w sched path_or_url g
         else index_local_directory w sched path_or_url g)"

definition get_status :: "explorer \<Rightarrow> string" where
  "get_status e =
     (let n = coll_count (collection e)
      in if n > 0 then ''Persistent index loaded with '' @ str_nat n @ '' items.''
         else ''Index is empty. Build the index to get started.'')"

definition clear_index :: "explorer \<Rightarrow> nat \<times> explorer" where
  "clear_index e =
     (let n = coll_count (collection e)
      in if n > 0
         then let ids_to_delete = coll_get_ids (collection e)
              in if ids_to_delete \<noteq> []
                 then (n, e\<lparr>collection := coll_delete ids_to_delete (collection e)\<rparr>)
                 else (n, e)
         else (n, e))"

section \<open>\<^verbatim>\<open>SemanticExplorer.search\<close>\<close>

subsection \<open>Filter expressions as Python values\<close>

text \<open>
  A filter expression is a Python dict whose values are strings, numbers, booleans,
  \<open>None\<close>, lists or dicts again. The operators the source applies to them are modelled with
  Python's dynamic typing: \<^verbatim>\<open>k in v\<close> is key membership on a dict, the substring test
  on a string, element membership on a list, and a \<open>TypeError\<close> otherwise; \<^verbatim>\<open>v[k]\<close> with
  a string \<open>k\<close> is defined on a dict only.
\<close>

datatype fval =
  Null
| Str string
| Num int
| Bool bool
| Lst "fval list"
| Dct "(string \<times> fval) list"

datatype py_error = TypeError | KeyError

type_synonym pydict = "(string \<times> fval) list"

fun py_in :: "string \<Rightarrow> fval \<Rightarrow> py_error + bool" where
  "py_in k (Dct d) = Inr (k \<in> set (map fst d))"
| "py_in k (Str s) = Inr (sublist k s)"
| "py_in k (Lst xs) = Inr (Str k \<in> set xs)"
| "py_in k v = Inl TypeError"

fun py_getitem :: "fval \<Rightarrow> string \<Rightarrow> py_error + fval" where
  "py_getitem (Dct d) k = (case map_of d k of None \<Rightarrow> Inl KeyError | Some v \<Rightarrow> Inr v)"
| "py_getitem v k = Inl TypeError"

text \<open>\<^verbatim>\<open>for cond in v\<close>: a dict iterates over its keys, a string over its characters.\<close>

fun py_iter :: "fval \<Rightarrow> py_error + fval list" where
  "py_iter (Lst xs) = Inr xs"
| "py_iter (Dct d) = Inr (map (\<lambda>p. Str (fst p)) d)"
| "py_iter (Str s) = Inr (map (\<lambda>c. Str [c]) s)"
| "py_iter v = Inl TypeError"

fun truthy :: "fval \<Rightarrow> bool" where
  "truthy Null = False"
| "truthy (Str s) = (s \<noteq> [])"
| "truthy (Num n) = (n \<noteq> 0)"
| "truthy (Bool b) = b"
| "truthy (Lst xs) = (xs \<noteq> [])"
| "truthy (Dct d) = (d \<noteq> [])"

text \<open>\<^verbatim>\<open>d[k] = v\<close> and \<^verbatim>\<open>del d[k]\<close> on a dict.\<close>

fun dict_set :: "string \<Rightarrow> fval \<Rightarrow> pydict \<Rightarrow> pydict" where
  "dict_set k v [] = [(k, v)]"
| "dict_set k v (p # ps) = (if fst p = k then (k, v) # ps else p # dict_set k v ps)"

definition dict_del :: "string \<Rightarrow> pydict \<Rightarrow> pydict" where
  "dict_del k d = filter (\<lambda>p. fst p \<noteq> k) d"

subsection \<open>Extraction of the path condition\<close>

text \<open>
  \<^verbatim>\<open>'relative_path' in cond and '$contains' in cond['relative_path']\<close>
\<close>

definition has_path_contains :: "fval \<Rightarrow> py_error + bool" where
  "has_path_contains cond =
     (case py_in ''relative_path'' cond of
        Inl err \<Rightarrow> Inl err
      | Inr False \<Rightarrow> Inr False
      | Inr True \<Rightarrow>
          (case py_getitem cond ''relative_path'' of
             Inl err \<Rightarrow> Inl err
           | Inr rp \<Rightarrow> py_in ''$contains'' rp))"

text \<open>\<^verbatim>\<open>cond['relative_path']['$contains']\<close>\<close>

definition path_contains_value :: "fval \<Rightarrow> py_error + fval" where
  "path_contains_value cond =
     (case py_getitem cond ''relative_path'' of
        Inl err \<Rightarrow> Inl err
      | Inr rp \<Rightarrow> py_getitem rp ''$contains'')"

text \<open>
  The nested function \<^verbatim>\<open>extract_path_filter\<close>; the nonlocal \<open>path_contains_filter\<close> is
  passed in and returned with the remaining conditions.
\<close>

fun extract_path_filter :: "fval list \<Rightarrow> fval \<Rightarrow> py_error + (fval list \<times> fval)" where
  "extract_path_filter [] path_contains_filter = Inr ([], path_contains_filter)"
| "extract_path_filter (cond # conditions) path_contains_filter =
     (case has_path_contains cond of
        Inl err \<Rightarrow> Inl err
      | Inr True \<Rightarrow>
          (case path_contains_value cond of
             Inl err \<Rightarrow> Inl err
           | Inr v \<Rightarrow> extract_path_filter conditions v)
      | Inr False \<Rightarrow>
          (case extract_path_filter conditions path_contains_filter of
             Inl err \<Rightarrow> Inl err
           | Inr (remaining_conditions, p) \<Rightarrow> Inr (cond # remaining_conditions, p)))"

text \<open>
  The rewriting of \<open>metadata_filters\<close> into the native filter \<open>db_filters\<close> and the
  extracted \<open>path_contains_filter\<close> (\<open>Null\<close> is Python's \<open>None\<close>).
\<close>

definition prepare_filters :: "pydict option \<Rightarrow> py_error + (pydict \<times> fval)" where
  "prepare_filters metadata_filters =
     (let db_filters = (case metadata_filters of None \<Rightarrow> [] | Some f \<Rightarrow> f)
      in case map_of db_filters ''$and'' of
           Some conds \<Rightarrow>
             (case py_iter conds of
                Inl err \<Rightarrow> Inl err
              | Inr conditions \<Rightarrow>
                  (case extract_path_filter conditions Null of
                     Inl err \<Rightarrow> Inl err
                   | Inr (remaining, p) \<Rightarrow>
                       if remaining = [] then Inr (dict_del ''$and'' db_filters, p)
                       else Inr (dict_set ''$and'' (Lst remaining) db_filters, p)))
         | None \<Rightarrow>
             (case map_of db_filters ''relative_path'' of
                None \<Rightarrow> Inr (db_filters, Null)
              | Some rp \<Rightarrow>
                  (case py_in ''$contains'' rp of
                     Inl err \<Rightarrow> Inl err
                   | Inr False \<Rightarrow> Inr (db_filters, Null)
                   | Inr True \<Rightarrow>
                       (case py_getitem rp ''$contains'' of
                          Inl err \<Rightarrow> Inl err
                        | Inr v \<Rightarrow> Inr (dict_del ''relative_path'' db_filters, v)))))"

subsection \<open>Query and result shaping\<close>

text \<open>
  The parameters of \<^verbatim>\<open>collection.query\<close>; the query text stands for its embedding.
  \<open>where_filter\<close> is \<open>None\<close> when no \<open>where\<close> argument is passed.
\<close>

record query_params =
  query_text :: string
  n_results :: int
  where_filter :: "pydict option"

text \<open>
  The type label of a result: the strings \<open>Folder\<close> and \<open>File\<close> of the source, each
  behind a pictogram.
\<close>

datatype type_label = FolderLabel | FileLabel

text \<open>
  A result. The distance type \<open>'d\<close> is the store's number type; the similarity is computed
  in its own arithmetic. \<open>modified\<close> keeps the stored epoch value.
\<close>

record 'd search_result =
  similarity :: 'd
  path :: string
  locator :: string
  label :: type_label
  size_of :: "nat option"
  modified :: real

definition shape :: "'d::{one,minus} \<Rightarrow> metadata \<Rightarrow> 'd search_result" where
  "shape d meta =
     \<lparr>similarity = 1 - d,
      path = relative_path meta,
      locator = full_path meta,
      label = (if is_dir meta then FolderLabel else FileLabel),
      size_of = (if \<not> is_dir meta then size_bytes meta else None),
      modified = modified_time meta\<rparr>"

text \<open>
  \<^verbatim>\<open>path_contains_filter and path_contains_filter not in meta['relative_path']\<close>;
  the left operand of \<^verbatim>\<open>in\<close> on a string must be a string.
\<close>

definition skip_candidate :: "fval \<Rightarrow> metadata \<Rightarrow> py_error + bool" where
  "skip_candidate path_contains_filter meta =
     (if truthy path_contains_filter
      then (case path_contains_filter of
              Str s \<Rightarrow> Inr (\<not> sublist s (relative_path meta))
            | _ \<Rightarrow> Inl TypeError)
      else Inr False)"

text \<open>The loop over the candidates, in the order the store returned them.\<close>

fun collect ::
  "int \<Rightarrow> fval \<Rightarrow> ('d::{one,minus} \<times> metadata) list \<Rightarrow> 'd search_result list
     \<Rightarrow> py_error + 'd search_result list" where
  "collect n pcf [] output = Inr output"
| "collect n pcf (c # cs) output =
     (case skip_candidate pcf (snd c) of
        Inl err \<Rightarrow> Inl err
      | Inr True \<Rightarrow> collect n pcf cs output
      | Inr False \<Rightarrow>
          (let output' = output @ [shape (fst c) (snd c)]
           in if int (length output') \<ge> n then Inr output'
              else collect n pcf cs output'))"

text \<open>
  \<open>store\<close> is the answer of the vector store to a query: the candidates as (distance,
  metadata) pairs in ranking order. A search returns its results and the queries it issued.
\<close>

definition search ::
  "(query_params \<Rightarrow> ('d::{one,minus} \<times> metadata) list) \<Rightarrow> explorer \<Rightarrow> string \<Rightarrow> int
     \<Rightarrow> pydict option \<Rightarrow> py_error + ('d search_result list \<times> query_params list)" where
  "search store e query n metadata_filters =
     (if coll_count (collection e) = 0 then Inr ([], [])
      else case prepare_filters metadata_filters of
             Inl err \<Rightarrow> Inl err
           | Inr (db_filters, path_contains_filter) \<Rightarrow>
               let params =
                     \<lparr>query_text = query,
                      n_results = min (n * 5) (int (coll_count (collection e))),
                      where_filter = (if db_filters \<noteq> [] then Some db_filters else None)\<rparr>;
                   results = store params
               in if results = [] then Inr ([], [params])
                  else (case collect n path_contains_filter results [] of
                          Inl err \<Rightarrow> Inl err
                        | Inr output \<Rightarrow> Inr (output, [params])))"

section \<open>Sample inputs\<close>

text \<open>Concrete inputs at which the theorems below are instantiated.\<close>

definition sample_meta :: "string \<Rightarrow> metadata" where
  "sample_meta p =
     \<lparr>full_path = ''/p/'' @ p, relative_path = p, is_dir = False, size_bytes = Some 3,
      modified_time = 0, source_type = ''local'', repo_url = None\<rparr>"

definition sample_explorer :: explorer where
  "sample_explorer =
     \<lparr>collection = [(''local::/p/a.py'', (''doc a'', sample_meta ''a.py'')),
                    (''local::/p/b.py'', (''doc b'', sample_meta ''b.py''))],
      is_cancelled = False\<rparr>"

definition empty_explorer :: explorer where
  "empty_explorer = \<lparr>collection = [], is_cancelled = False\<rparr>"

text \<open>
  A world with a small local tree under \<open>/p\<close>, a repository whose listing succeeds and one
  whose listing fails. Of the remote files, \<open>big.txt\<close> announces two million bytes and
  \<open>blob.dat\<close> starts with a null byte.
\<close>

definition sample_world :: world where
  "sample_world =
     \<lparr>os_isdir = (\<lambda>p. p = ''/p'' \<or> p = ''/p/src''),
      os_walk = (\<lambda>p. [FileNode ''.env'', FileNode ''logo.png'',
                       DirNode ''node_modules'' [FileNode ''x.js''],
                       DirNode ''src'' [FileNode ''a.py'']]),
      os_stat = (\<lambda>p. StatOk \<lparr>st_size = 3, st_mtime = 0\<rparr>),
      read_text = (\<lambda>p. Some ''abc''),
      repo_api = (\<lambda>u. if u = ''https://github.com/o/down'' then Inl ''rate limit exceeded''
                      else Inr ([\<lparr>fm_path = ''.env'', fm_size = Some 3\<rparr>,
                                 \<lparr>fm_path = ''img/logo.png'', fm_size = Some 3\<rparr>,
                                 \<lparr>fm_path = ''node_modules/x.js'', fm_size = Some 3\<rparr>,
                                 \<lparr>fm_path = ''big.txt'', fm_size = Some 2000000\<rparr>,
                                 \<lparr>fm_path = ''blob.dat'', fm_size = Some 4\<rparr>,
                                 \<lparr>fm_path = ''a.py'', fm_size = Some 3\<rparr>],
                                ''https://raw/'')),
      github_token = False,
      content_url = (\<lambda>b p. b @ p),
      http_get = (\<lambda>u. if u = ''https://raw/big.txt'' then Response (Length 2000000) [] None
                      else if u = ''https://raw/blob.dat''
                      then Response NoLength [ [CHR 0x00, CHR ''a'', CHR ''b'', CHR ''c''] ] None
                      else Response NoLength [''abc''] None),
      utf8_decode = (\<lambda>s. s),
      clock = 0\<rparr>"

text \<open>
  The same world with another tree under \<open>/p\<close>: a file and a symbolic link that points
  to itself, on which \<^verbatim>\<open>os.stat\<close> raises \<open>OSError\<close> (too many levels of symbolic
  links).
\<close>

definition looping_world :: world where
  "looping_world =
     sample_world
       \<lparr>os_walk := (\<lambda>p. [FileNode ''a.py'', FileNode ''loop'']),
        os_stat := (\<lambda>p. if p = ''/p/loop'' then StatRaises
                        else StatOk \<lparr>st_size = 3, st_mtime = 0\<rparr>)\<rparr>"

definition never :: schedule where
  "never = (\<lambda>k. False)"

definition at_yield :: "nat \<Rightarrow> schedule" where
  "at_yield n = (\<lambda>k. k = n)"

section \<open>Notions used in the statements\<close>

text \<open>The status of a batch, yielded at the top of each round of a batch loop.\<close>

fun is_batch :: "status \<Rightarrow> bool" where
  "is_batch (ProcessingBatch b k n) = True"
| "is_batch s = False"

text \<open>
  The statuses after which a generator returns: an error message, and the messages that
  report the size of the index.
\<close>

fun is_terminal :: "status \<Rightarrow> bool" where
  "is_terminal (ErrorMsg error) = True"
| "is_terminal NotADirectory = True"
| "is_terminal (CancelledScan n) = True"
| "is_terminal (BuildCancelled final_count) = True"
| "is_terminal (BuildComplete final_count) = True"
| "is_terminal s = False"

text \<open>
  What building the entry of an item gives when it does not raise, and whether it raises.
\<close>

definition built :: "('a \<Rightarrow> os_error + 'b option) \<Rightarrow> 'a \<Rightarrow> 'b option" where
  "built entry x = (case entry x of Inl err \<Rightarrow> None | Inr r \<Rightarrow> r)"

definition raises :: "('a \<Rightarrow> os_error + 'b option) \<Rightarrow> 'a \<Rightarrow> bool" where
  "raises entry x = (case entry x of Inl err \<Rightarrow> True | Inr r \<Rightarrow> False)"

text \<open>
  The flag of a run agrees with its schedule when it is set exactly if the driver has
  cancelled at one of the yields so far.
\<close>

definition coherent :: "schedule \<Rightarrow> run \<Rightarrow> bool" where
  "coherent sched g = (is_cancelled (self g) = (\<exists>j < length (yielded g). sched j))"

definition ids_of :: "run \<Rightarrow> string set" where
  "ids_of g = fst ` set (collection (self g))"

definition remote :: "string \<Rightarrow> bool" where
  "remote path_or_url = (sublist ''github.com'' path_or_url \<or> sublist ''huggingface.co'' path_or_url)"

text \<open>
  The ids that a source determines: for a local directory, the prefix \<open>local::\<close> and the
  full path of every enumerated entry that \<^verbatim>\<open>os.stat\<close> finds; for a repository, the prefix
  \<open>repo::\<close>, the repository URL and the path of every kept file whose content was fetched.
  A local run reaches the entries of its complete batches: the batches of 128 paths before
  the first batch in which \<^verbatim>\<open>os.stat\<close> raises an error that the source does not catch.
\<close>

definition fetched :: "world \<Rightarrow> string \<Rightarrow> file_meta \<Rightarrow> bool" where
  "fetched w base f =
     (case get_remote_file_content 1000000 (utf8_decode w)
             (http_get w (content_url w base (fm_path f))) of
        Inl err \<Rightarrow> False
      | Inr content \<Rightarrow> True)"

function complete_batches :: "('a \<Rightarrow> bool) \<Rightarrow> nat \<Rightarrow> 'a list \<Rightarrow> 'a list" where
  "complete_batches fails n xs =
     (if n = 0 \<or> xs = [] then []
      else if list_ex fails (take n xs) then []
      else take n xs @ complete_batches fails n (drop n xs))"
  by pat_completeness auto
termination
  by (relation "measure (\<lambda>(fails, n, xs). length xs)") auto

declare complete_batches.simps [simp del]

definition stat_found :: "world \<Rightarrow> string \<Rightarrow> bool" where
  "stat_found w p = (case os_stat w p of StatOk stat \<Rightarrow> True | _ \<Rightarrow> False)"

definition stat_raises :: "world \<Rightarrow> string \<Rightarrow> bool" where
  "stat_raises w p = (case os_stat w p of StatRaises \<Rightarrow> True | _ \<Rightarrow> False)"

definition local_ids :: "world \<Rightarrow> string \<Rightarrow> string list" where
  "local_ids w root_path =
     map (\<lambda>names. ''local::'' @ foldl os_path_join root_path names)
       (filter (\<lambda>names. stat_found w (foldl os_path_join root_path names))
          (complete_batches (\<lambda>names. stat_raises w (foldl os_path_join root_path names)) 128
             (walk False [] (os_walk w root_path))))"

definition repo_ids :: "world \<Rightarrow> string \<Rightarrow> string list" where
  "repo_ids w url =
     (case get_repo_files w url of
        Inl error \<Rightarrow> []
      | Inr (files, base) \<Rightarrow>
          map (\<lambda>f. ''repo::'' @ url @ ''::'' @ fm_path f) (filter (fetched w base) files))"

definition source_ids :: "world \<Rightarrow> string \<Rightarrow> string list" where
  "source_ids w src =
     (if remote src then repo_ids w src
      else if os_isdir w src then local_ids w src
      else [])"

text \<open>
  What the fetch of a remote file can show: content over the byte cap, by the announced
  length or by the bytes that arrive, and a null byte within the first 1024 bytes.
\<close>

definition exceeds_cap :: "nat \<Rightarrow> http_response \<Rightarrow> bool" where
  "exceeds_cap max_size r =
     (case r of
        RequestError e \<Rightarrow> False
      | Response len chunks failure \<Rightarrow>
          (case len of Length n \<Rightarrow> n > int max_size | _ \<Rightarrow> False)
          \<or> length (concat chunks) > max_size)"

definition looks_binary :: "http_response \<Rightarrow> bool" where
  "looks_binary r =
     (case r of
        RequestError e \<Rightarrow> False
      | Response len chunks failure \<Rightarrow> CHR 0x00 \<in> set (take 1024 (concat chunks)))"

text \<open>
  The post-filter that an extracted value stands for: a string keeps the candidates whose
  relative path contains it, and a falsy value keeps every candidate. An extracted value
  that is truthy and not a string makes the membership test raise.
\<close>

definition keeps :: "fval \<Rightarrow> metadata \<Rightarrow> bool" where
  "keeps pcf meta = (case pcf of Str s \<Rightarrow> sublist s (relative_path meta) | _ \<Rightarrow> True)"

definition post_filter_ok :: "fval \<Rightarrow> bool" where
  "post_filter_ok pcf = (case pcf of Str s \<Rightarrow> True | _ \<Rightarrow> \<not> truthy pcf)"

text \<open>The query that a search issues for a native filter.\<close>

definition params_for :: "explorer \<Rightarrow> string \<Rightarrow> int \<Rightarrow> pydict \<Rightarrow> query_params" where
  "params_for e query n db_filters =
     \<lparr>query_text = query,
      n_results = min (n * 5) (int (coll_count (collection e))),
      where_filter = (if db_filters \<noteq> [] then Some db_filters else None)\<rparr>"

text \<open>
  A field condition is a dict whose \<open>relative_path\<close> entry, when it has one, is a dict of
  operators; it is a path condition when that dict has the operator \<open>$contains\<close>, whose
  operand is then its value.
\<close>

definition field_condition :: "fval \<Rightarrow> bool" where
  "field_condition c =
     (case c of
        Dct d \<Rightarrow>
          (case map_of d ''relative_path'' of
             None \<Rightarrow> True
           | Some (Dct ops) \<Rightarrow> True
           | Some v \<Rightarrow> False)
      | _ \<Rightarrow> False)"

definition is_path_contains :: "fval \<Rightarrow> bool" where
  "is_path_contains c =
     (case c of
        Dct d \<Rightarrow>
          (case map_of d ''relative_path'' of
             Some (Dct ops) \<Rightarrow> ''$contains'' \<in> set (map fst ops)
           | _ \<Rightarrow> False)
      | _ \<Rightarrow> False)"

definition contains_value :: "fval \<Rightarrow> fval" where
  "contains_value c =
     (case c of
        Dct d \<Rightarrow>
          (case map_of d ''relative_path'' of
             Some (Dct ops) \<Rightarrow> (case map_of ops ''$contains'' of Some v \<Rightarrow> v | None \<Rightarrow> Null)
           | _ \<Rightarrow> Null)
      | _ \<Rightarrow> Null)"

text \<open>The condition \<open>{"relative_path": {"$contains": s}}\<close> and the condition \<open>{k: v}\<close>.\<close>

definition path_contains :: "string \<Rightarrow> fval" where
  "path_contains s = Dct [(''relative_path'', Dct [(''$contains'', Str s)])]"

definition field_is :: "string \<Rightarrow> fval \<Rightarrow> fval" where
  "field_is k v = Dct [(k, v)]"

text \<open>
  The native filter for a filter \<open>f\<close> whose \<open>$and\<close> list is \<open>conds\<close>: the path conditions are
  taken out of the list, and the \<open>$and\<close> entry is deleted when nothing is left of it.
\<close>

definition native_filter :: "pydict \<Rightarrow> fval list \<Rightarrow> pydict" where
  "native_filter f conds =
     (let remaining = filter (\<lambda>c. \<not> is_path_contains c) conds
      in if remaining = [] then dict_del ''$and'' f else dict_set ''$and'' (Lst remaining) f)"

text \<open>The results for the candidates \<open>cands\<close> under the post-filter of \<open>pcf\<close>.\<close>

definition shaped :: "fval \<Rightarrow> nat \<Rightarrow> ('d::{one,minus} \<times> metadata) list \<Rightarrow> 'd search_result list" where
  "shaped pcf k cands =
     map (\<lambda>c. shape (fst c) (snd c)) (take k (filter (\<lambda>c. keeps pcf (snd c)) cands))"

text \<open>Candidates and filters for the search examples.\<close>

definition three_candidates :: "query_params \<Rightarrow> (real \<times> metadata) list" where
  "three_candidates p =
     [(1 / 4, sample_meta ''docs/readme.py''), (1 / 2, sample_meta ''src/a.txt''),
      (3 / 4, sample_meta ''src/a.py'')]"

definition two_path_conditions :: pydict where
  "two_path_conditions =
     [(''$and'', Lst [path_contains ''src'', field_is ''is_dir'' (Bool False), path_contains ''.py''])]"

definition one_candidate :: "query_params \<Rightarrow> (real \<times> metadata) list" where
  "one_candidate p = [(0, sample_meta ''bar.txt'')]"

definition foo_and_bar :: pydict where
  "foo_and_bar = [(''$and'', Lst [path_contains ''foo'', path_contains ''bar''])]"

definition src_local :: pydict where
  "src_local =
     [(''relative_path'', Dct [(''$contains'', Str ''src'')]), (''source_type'', Str ''local'')]"

definition files_py :: pydict where
  "files_py = [(''$and'', Lst [field_is ''is_dir'' (Bool False), path_contains ''.py''])]"

definition nested_foo :: pydict where
  "nested_foo =
     [(''$and'', Lst [Dct [(''$and'', Lst [path_contains ''foo'', field_is ''is_dir'' (Bool False)])],
                      field_is ''source_type'' (Str ''local'')])]"

section \<open>Facts about the generators\<close>

lemma yielded_yield [simp]: "yielded (yield sched m g) = yielded g @ [m]"
  by (simp add: yield_def)

lemma collection_yield [simp]: "collection (self (yield sched m g)) = collection (self g)"
  by (simp add: yield_def cancel_indexing_def)

lemma cancelled_yield [simp]:
  "is_cancelled (self (yield sched m g)) = (is_cancelled (self g) \<or> sched (length (yielded g)))"
  by (simp add: yield_def cancel_indexing_def)

lemma raised_yield [simp]: "raised (yield sched m g) = raised g"
  by (simp add: yield_def)

lemma count_yield [simp]: "count (yield sched m g) = count g"
  by (simp add: count_def)

lemma ids_of_yield [simp]: "ids_of (yield sched m g) = ids_of g"
  by (simp add: ids_of_def)

lemma coherent_yield: "coherent sched g \<Longrightarrow> coherent sched (yield sched m g)"
  by (auto simp: coherent_def less_Suc_eq)

lemma coherent_raised [simp]: "coherent sched (g\<lparr>raised := r\<rparr>) = coherent sched g"
  by (simp add: coherent_def)

lemma coherent_collection [simp]:
  "coherent sched (g\<lparr>self := (self g)\<lparr>collection := c\<rparr>\<rparr>) = coherent sched g"
  by (simp add: coherent_def)

text \<open>The three ways a round of the batch loop goes.\<close>

lemma batch_loop_stop:
  "bs = 0 \<or> length items \<le> i \<or> is_cancelled (self g) \<Longrightarrow> batch_loop sched bs process items i g = g"
  by (subst batch_loop.simps) auto

lemma batch_loop_cancelled:
  "is_cancelled (self g) \<Longrightarrow> batch_loop sched bs process items i g = g"
  by (simp add: batch_loop_stop)

lemma batch_loop_raise:
  "bs \<noteq> 0 \<Longrightarrow> i < length items \<Longrightarrow> \<not> is_cancelled (self g) \<Longrightarrow>
   process (take bs (drop i items)) (collection (self g)) = Inl err \<Longrightarrow>
   batch_loop sched bs process items i g =
     (yield sched (ProcessingBatch (i div bs + 1) (min (i + bs) (length items)) (length items)) g)
       \<lparr>raised := Some err\<rparr>"
  by (subst batch_loop.simps) (simp add: Let_def)

lemma batch_loop_step:
  "bs \<noteq> 0 \<Longrightarrow> i < length items \<Longrightarrow> \<not> is_cancelled (self g) \<Longrightarrow>
   process (take bs (drop i items)) (collection (self g)) = Inr c \<Longrightarrow>
   batch_loop sched bs process items i g =
     batch_loop sched bs process items (i + bs)
       ((yield sched (ProcessingBatch (i div bs + 1) (min (i + bs) (length items)) (length items)) g)
          \<lparr>self := (self (yield sched (ProcessingBatch (i div bs + 1) (min (i + bs) (length items))
                                  (length items)) g))\<lparr>collection := c\<rparr>\<rparr>)"
  by (subst batch_loop.simps) (simp add: Let_def)

lemma batch_loop_cancel:
  "coherent sched g \<Longrightarrow>
   coherent sched (batch_loop sched bs process items i g)
   \<and> (\<exists>ys. yielded (batch_loop sched bs process items i g) = yielded g @ ys \<and> list_all is_batch ys)
   \<and> (\<forall>j. length (yielded g) \<le> j \<and> j + 1 < length (yielded (batch_loop sched bs process items i g))
          \<longrightarrow> \<not> sched j)"
proof (induction "length items - i" arbitrary: i g rule: less_induct)
  case less
  let ?res = "batch_loop sched bs process items i g"
  show ?case
  proof (cases "bs = 0 \<or> length items \<le> i \<or> is_cancelled (self g)")
    case True
    then have "?res = g" by (rule batch_loop_stop)
    with less.prems show ?thesis by auto
  next
    case False
    define msg where "msg = ProcessingBatch (i div bs + 1) (min (i + bs) (length items)) (length items)"
    define g1 where "g1 = yield sched msg g"
    have y1: "yielded g1 = yielded g @ [msg]"
      and c1: "is_cancelled (self g1) = sched (length (yielded g))"
      using False by (simp_all add: g1_def)
    have nocancel: "\<forall>j < length (yielded g). \<not> sched j"
      using False less.prems by (auto simp: coherent_def)
    have coh1: "coherent sched g1"
      using nocancel by (auto simp: coherent_def y1 c1 less_Suc_eq)
    show ?thesis
    proof (cases "process (take bs (drop i items)) (collection (self g))")
      case (Inl err)
      then have res: "?res = g1\<lparr>raised := Some err\<rparr>"
        using False by (simp add: batch_loop_raise g1_def msg_def)
      have "yielded ?res = yielded g @ [msg] \<and> list_all is_batch [msg]"
        unfolding res using y1 by (simp add: msg_def)
      then show ?thesis using coh1 unfolding res by (auto simp: y1)
    next
      case (Inr c)
      define g2 where "g2 = g1\<lparr>self := (self g1)\<lparr>collection := c\<rparr>\<rparr>"
      have res: "?res = batch_loop sched bs process items (i + bs) g2"
        using False Inr by (simp add: batch_loop_step g2_def g1_def msg_def)
      have y2: "yielded g2 = yielded g @ [msg]"
        and c2: "is_cancelled (self g2) = sched (length (yielded g))"
        using y1 c1 by (simp_all add: g2_def)
      have coh2: "coherent sched g2" using coh1 by (simp add: g2_def)
      have "length items - (i + bs) < length items - i" using False by auto
      from less.hyps [OF this coh2]
      have IH: "coherent sched (batch_loop sched bs process items (i + bs) g2)
         \<and> (\<exists>ys. yielded (batch_loop sched bs process items (i + bs) g2) = yielded g2 @ ys
                \<and> list_all is_batch ys)
         \<and> (\<forall>j. length (yielded g2) \<le> j
                \<and> j + 1 < length (yielded (batch_loop sched bs process items (i + bs) g2))
              \<longrightarrow> \<not> sched j)" .
      have stop: "sched (length (yielded g)) \<Longrightarrow> ?res = g2"
        using res c2 batch_loop_cancelled by simp
      from IH obtain ys where ys: "yielded ?res = yielded g2 @ ys" "list_all is_batch ys"
        unfolding res by blast
      have a: "coherent sched ?res" using IH res by simp
      have b: "yielded ?res = yielded g @ (msg # ys) \<and> list_all is_batch (msg # ys)"
        using ys y2 by (simp add: msg_def)
      have c: "\<forall>j. length (yielded g) \<le> j \<and> j + 1 < length (yielded ?res) \<longrightarrow> \<not> sched j"
      proof (intro allI impI)
        fix j assume j: "length (yielded g) \<le> j \<and> j + 1 < length (yielded ?res)"
        show "\<not> sched j"
        proof (cases "j = length (yielded g)")
          case True
          show ?thesis
          proof
            assume "sched j"
            then have "?res = g2" using stop True by simp
            then show False using j y2 True by simp
          qed
        next
          case False
          then have "length (yielded g2) \<le> j" using j y2 by simp
          then show ?thesis using IH j res by simp
        qed
      qed
      from a b c show ?thesis by blast
    qed
  qed
qed

lemma yielded_final_status:
  "yielded (final_status sched g) =
     yielded g @ [if is_cancelled (self g) then BuildCancelled (count g) else BuildComplete (count g)]"
  by (simp add: final_status_def Let_def)

lemma count_final_status [simp]: "count (final_status sched g) = count g"
  by (simp add: final_status_def Let_def)

lemma ids_of_final_status [simp]: "ids_of (final_status sched g) = ids_of g"
  by (simp add: final_status_def Let_def)

lemma coherent_final_status: "coherent sched g \<Longrightarrow> coherent sched (final_status sched g)"
  by (simp add: final_status_def Let_def coherent_yield)

lemma after_loop:
  assumes coh: "coherent sched g"
    and quiet: "list_all (\<lambda>s. \<not> is_batch s) (yielded g)"
    and k: "sched k" "k < length (yielded (batch_loop sched bs process items i g))"
  shows "is_cancelled (self (batch_loop sched bs process items i g))
     \<and> (\<forall>j. k < j \<and> j < length (yielded (batch_loop sched bs process items i g))
            \<longrightarrow> \<not> is_batch (yielded (batch_loop sched bs process items i g) ! j))"
proof -
  let ?g' = "batch_loop sched bs process items i g"
  from batch_loop_cancel [OF coh, of bs process items i]
  obtain ys where coh': "coherent sched ?g'"
    and ys: "yielded ?g' = yielded g @ ys"
    and late: "\<forall>j. length (yielded g) \<le> j \<and> j + 1 < length (yielded ?g') \<longrightarrow> \<not> sched j"
    by blast
  have flag: "is_cancelled (self ?g')"
    using coh' k by (auto simp: coherent_def)
  have "\<not> is_batch (yielded ?g' ! j)" if j: "k < j" "j < length (yielded ?g')" for j
  proof (cases "k < length (yielded g)")
    case True
    then have "is_cancelled (self g)" using coh k(1) by (auto simp: coherent_def)
    then have "?g' = g" by (rule batch_loop_cancelled)
    then show ?thesis using quiet j by (simp add: list_all_length)
  next
    case False
    then have "length (yielded g) \<le> k \<and> k + 1 < length (yielded ?g')" using j by simp
    then show ?thesis using late k(1) by blast
  qed
  with flag show ?thesis by blast
qed

lemma finish_cancelled:
  assumes coh: "coherent sched g2"
    and quiet: "list_all (\<lambda>s. \<not> is_batch s) (yielded g2)"
    and g: "g = final_status sched (batch_loop sched bs process items i g2)"
    and k: "sched k" "k + 1 < length (yielded g)"
  shows "is_cancelled (self g) \<and> last (yielded g) = BuildCancelled (count g)
     \<and> (\<forall>j. k < j \<and> j < length (yielded g) \<longrightarrow> \<not> is_batch (yielded g ! j))"
proof -
  let ?g3 = "batch_loop sched bs process items i g2"
  have len: "length (yielded g) = length (yielded ?g3) + 1"
    by (simp add: g yielded_final_status)
  then have k3: "k < length (yielded ?g3)" using k by simp
  from after_loop [OF coh quiet k(1) k3]
  have flag: "is_cancelled (self ?g3)"
    and nb: "\<forall>j. k < j \<and> j < length (yielded ?g3) \<longrightarrow> \<not> is_batch (yielded ?g3 ! j)"
    by blast+
  have ys: "yielded g = yielded ?g3 @ [BuildCancelled (count g)]"
    using flag by (simp add: g yielded_final_status)
  have fl: "is_cancelled (self g)"
    using flag by (simp add: g final_status_def Let_def)
  have "\<not> is_batch (yielded g ! j)" if j: "k < j" "j < length (yielded g)" for j
  proof (cases "j < length (yielded ?g3)")
    case True
    then show ?thesis using nb j ys by (simp add: nth_append)
  next
    case False
    then have "j = length (yielded ?g3)" using j len by simp
    then show ?thesis using ys by (simp add: nth_append)
  qed
  with ys fl show ?thesis by simp
qed

lemma raised_final_status [simp]: "raised (final_status sched g) = raised g"
  by (simp add: final_status_def Let_def)

lemma collection_final_status [simp]:
  "collection (self (final_status sched g)) = collection (self g)"
  by (simp add: final_status_def Let_def)

lemma coherent_start:
  "coherent sched \<lparr>self = e\<lparr>is_cancelled := False\<rparr>, yielded = [], raised = None\<rparr>"
  by (simp add: coherent_def)

lemma coherent_index_repository:
  "coherent sched g \<Longrightarrow> coherent sched (index_repository w sched url g)"
  by (auto simp: index_repository_def Let_def coherent_yield coherent_final_status
        batch_loop_cancel split: sum.splits prod.splits)

lemma coherent_index_local_directory:
  "coherent sched g \<Longrightarrow> coherent sched (index_local_directory w sched root_path g)"
  by (simp add: index_local_directory_def Let_def coherent_yield coherent_final_status
        batch_loop_cancel)

lemma coherent_index_directory: "coherent sched (index_directory w sched src e)"
  by (simp add: index_directory_def Let_def coherent_index_repository
        coherent_index_local_directory coherent_start)

subsection \<open>What a run writes\<close>

lemma map_fst_upsert1:
  "map fst (upsert1 k v c) = (if k \<in> fst ` set c then map fst c else map fst c @ [k])"
  by (induction c) auto

lemma ids_upsert1: "fst ` set (upsert1 k v c) = insert k (fst ` set c)"
  using map_fst_upsert1 [of k v c, THEN arg_cong, of set] by (auto split: if_splits)

lemma ids_coll_upsert: "fst ` set (coll_upsert es c) = fst ` set c \<union> fst ` set es"
  by (induction es arbitrary: c) (auto simp: ids_upsert1)

lemma map_fst_coll_upsert_known:
  "fst ` set es \<subseteq> fst ` set c \<Longrightarrow> map fst (coll_upsert es c) = map fst c"
proof (induction es arbitrary: c)
  case Nil
  then show ?case by simp
next
  case (Cons e es)
  have "map fst (upsert1 (fst e) (snd e) c) = map fst c"
    using Cons.prems by (simp add: map_fst_upsert1)
  moreover have "fst ` set es \<subseteq> fst ` set (upsert1 (fst e) (snd e) c)"
    using Cons.prems by (auto simp: ids_upsert1)
  ultimately show ?case using Cons.IH by simp
qed

lemma os_error_eq [simp]: "(err :: os_error) = OSError" "OSError = (err :: os_error)"
  by (cases err; simp)+

lemma ids_of_raised [simp]: "ids_of (g\<lparr>raised := r\<rparr>) = ids_of g"
  by (simp add: ids_of_def)

lemma build_docs_eq:
  "build_docs entry xs
     = (if list_ex (raises entry) xs then Inl OSError else Inr (List.map_filter (built entry) xs))"
proof (induction xs)
  case Nil
  then show ?case by simp
next
  case (Cons x xs)
  show ?case
  proof (cases "entry x")
    case (Inl err)
    then have "raises entry x" by (simp add: raises_def)
    with Inl show ?thesis by simp
  next
    case (Inr r)
    then have "\<not> raises entry x" "built entry x = r" by (simp_all add: raises_def built_def)
    with Inr Cons.IH show ?thesis by (cases r) simp_all
  qed
qed

lemma process_batch_raises:
  "(process_batch entry batch c = Inl err) = list_ex (raises entry) batch"
  by (simp add: process_batch_def build_docs_eq)

lemma process_batch_ok:
  assumes "process_batch entry batch c = Inr c'"
  shows "c' = (if List.map_filter (built entry) batch \<noteq> []
               then coll_upsert (List.map_filter (built entry) batch) c else c)"
  using assms by (simp add: process_batch_def build_docs_eq split: if_splits)

lemma ids_process_batch:
  "process_batch entry batch c = Inr c' \<Longrightarrow>
   fst ` set c' = fst ` set c \<union> fst ` set (List.map_filter (built entry) batch)"
proof -
  assume "process_batch entry batch c = Inr c'"
  from process_batch_ok [OF this] show ?thesis
    by (cases "List.map_filter (built entry) batch = []") (simp_all add: ids_coll_upsert)
qed

lemma map_fst_process_batch_known:
  "process_batch entry batch c = Inr c' \<Longrightarrow>
   fst ` set (List.map_filter (built entry) batch) \<subseteq> fst ` set c \<Longrightarrow> map fst c' = map fst c"
proof -
  assume "process_batch entry batch c = Inr c'"
    and known: "fst ` set (List.map_filter (built entry) batch) \<subseteq> fst ` set c"
  from process_batch_ok [OF this(1)] known show ?thesis
    by (cases "List.map_filter (built entry) batch = []")
       (simp_all add: map_fst_coll_upsert_known)
qed

lemma map_filter_append:
  "List.map_filter f (xs @ ys) = List.map_filter f xs @ List.map_filter f ys"
  by (simp add: List.map_filter_def)

lemma entries_split:
  "set (List.map_filter f (drop i items))
     = set (List.map_filter f (take bs (drop i items))) \<union> set (List.map_filter f (drop (i + bs) items))"
proof -
  have "drop i items = take bs (drop i items) @ drop (i + bs) items"
    by (metis append_take_drop_id drop_drop add.commute)
  then have "List.map_filter f (drop i items)
      = List.map_filter f (take bs (drop i items)) @ List.map_filter f (drop (i + bs) items)"
    by (metis map_filter_append)
  then show ?thesis by simp
qed

text \<open>The complete batches of a list.\<close>

lemma complete_batches_Nil [simp]: "complete_batches fails bs [] = []"
  by (subst complete_batches.simps) simp

lemma complete_batches_end:
  "length items \<le> i \<Longrightarrow> complete_batches fails bs (drop i items) = []"
  by (subst complete_batches.simps) simp

lemma complete_batches_raise:
  "list_ex fails (take bs (drop i items)) \<Longrightarrow> complete_batches fails bs (drop i items) = []"
  by (subst complete_batches.simps) simp

lemma complete_batches_step:
  "bs \<noteq> 0 \<Longrightarrow> i < length items \<Longrightarrow> \<not> list_ex fails (take bs (drop i items)) \<Longrightarrow>
   complete_batches fails bs (drop i items)
     = take bs (drop i items) @ complete_batches fails bs (drop (i + bs) items)"
  by (subst complete_batches.simps) (simp add: add.commute)

lemma complete_batches_subset: "set (complete_batches fails n xs) \<subseteq> set xs"
proof (induction fails n xs rule: complete_batches.induct)
  case (1 fails n xs)
  show ?case
  proof (cases "n = 0 \<or> xs = [] \<or> list_ex fails (take n xs)")
    case True
    then show ?thesis by (subst complete_batches.simps) auto
  next
    case False
    then have "set (complete_batches fails n (drop n xs)) \<subseteq> set (drop n xs)"
      using 1 by simp
    then have "set (take n xs @ complete_batches fails n (drop n xs)) \<subseteq> set xs"
      using set_take_subset [of n xs] set_drop_subset [of n xs] by auto
    then show ?thesis using False by (subst complete_batches.simps) simp
  qed
qed

lemma complete_batches_all:
  "n \<noteq> 0 \<Longrightarrow> \<not> list_ex fails xs \<Longrightarrow> complete_batches fails n xs = xs"
proof (induction fails n xs rule: complete_batches.induct)
  case (1 fails n xs)
  show ?case
  proof (cases "xs = []")
    case True
    then show ?thesis by (subst complete_batches.simps) simp
  next
    case False
    have t: "\<not> list_ex fails (take n xs)" and d: "\<not> list_ex fails (drop n xs)"
      using "1.prems"(2) by (auto simp: list_ex_iff dest: in_set_takeD in_set_dropD)
    have "complete_batches fails n (drop n xs) = drop n xs"
      using "1.IH" "1.prems"(1) False t d by simp
    then show ?thesis using False t "1.prems"(1) by (subst complete_batches.simps) simp
  qed
qed

text \<open>The ids in the collection along the batch loop.\<close>

lemma batch_loop_ids_subset:
  "ids_of (batch_loop sched bs (process_batch entry) items i g)
     \<subseteq> ids_of g \<union> fst ` set (List.map_filter (built entry) (drop i items))"
proof (induction "length items - i" arbitrary: i g rule: less_induct)
  case less
  show ?case
  proof (cases "bs = 0 \<or> length items \<le> i \<or> is_cancelled (self g)")
    case True
    then show ?thesis by (simp add: batch_loop_stop)
  next
    case False
    let ?msg = "ProcessingBatch (i div bs + 1) (min (i + bs) (length items)) (length items)"
    show ?thesis
    proof (cases "process_batch entry (take bs (drop i items)) (collection (self g))")
      case (Inl err)
      then show ?thesis using False by (simp add: batch_loop_raise)
    next
      case (Inr c)
      let ?next = "(yield sched ?msg g)\<lparr>self := (self (yield sched ?msg g))\<lparr>collection := c\<rparr>\<rparr>"
      have res: "batch_loop sched bs (process_batch entry) items i g
          = batch_loop sched bs (process_batch entry) items (i + bs) ?next"
        using False Inr by (simp add: batch_loop_step)
      have "length items - (i + bs) < length items - i" using False by auto
      from less.hyps [OF this]
      have IH: "ids_of (batch_loop sched bs (process_batch entry) items (i + bs) ?next)
          \<subseteq> ids_of ?next \<union> fst ` set (List.map_filter (built entry) (drop (i + bs) items))" .
      have "ids_of ?next
          = ids_of g \<union> fst ` set (List.map_filter (built entry) (take bs (drop i items)))"
        using ids_process_batch [OF Inr] by (simp add: ids_of_def)
      with IH show ?thesis
        unfolding res entries_split [of "built entry" i items bs] by auto
    qed
  qed
qed

lemma batch_loop_ids_never:
  "\<forall>k. \<not> sched k \<Longrightarrow> \<not> is_cancelled (self g) \<Longrightarrow> bs \<noteq> 0 \<Longrightarrow>
   ids_of (batch_loop sched bs (process_batch entry) items i g)
     = ids_of g \<union> fst ` set (List.map_filter (built entry)
                              (complete_batches (raises entry) bs (drop i items)))"
proof (induction "length items - i" arbitrary: i g rule: less_induct)
  case less
  show ?case
  proof (cases "length items \<le> i")
    case True
    then show ?thesis by (simp add: batch_loop_stop complete_batches_end)
  next
    case False
    let ?msg = "ProcessingBatch (i div bs + 1) (min (i + bs) (length items)) (length items)"
    show ?thesis
    proof (cases "process_batch entry (take bs (drop i items)) (collection (self g))")
      case (Inl err)
      then have "list_ex (raises entry) (take bs (drop i items))"
        by (simp add: process_batch_raises)
      then have "complete_batches (raises entry) bs (drop i items) = []"
        by (rule complete_batches_raise)
      then show ?thesis using False Inl less.prems by (simp add: batch_loop_raise)
    next
      case (Inr c)
      let ?next = "(yield sched ?msg g)\<lparr>self := (self (yield sched ?msg g))\<lparr>collection := c\<rparr>\<rparr>"
      have res: "batch_loop sched bs (process_batch entry) items i g
          = batch_loop sched bs (process_batch entry) items (i + bs) ?next"
        using False Inr less.prems by (simp add: batch_loop_step)
      have ok: "\<not> list_ex (raises entry) (take bs (drop i items))"
        using Inr process_batch_raises [of entry "take bs (drop i items)" "collection (self g)" OSError]
        by simp
      have split: "complete_batches (raises entry) bs (drop i items)
          = take bs (drop i items) @ complete_batches (raises entry) bs (drop (i + bs) items)"
        using False less.prems(3) ok by (simp add: complete_batches_step)
      have nc: "\<not> is_cancelled (self ?next)" using less.prems by simp
      have "length items - (i + bs) < length items - i" using False less.prems(3) by auto
      from less.hyps [OF this less.prems(1) nc less.prems(3)]
      have IH: "ids_of (batch_loop sched bs (process_batch entry) items (i + bs) ?next)
          = ids_of ?next \<union> fst ` set (List.map_filter (built entry)
                (complete_batches (raises entry) bs (drop (i + bs) items)))" .
      have "ids_of ?next
          = ids_of g \<union> fst ` set (List.map_filter (built entry) (take bs (drop i items)))"
        using ids_process_batch [OF Inr] by (simp add: ids_of_def)
      with IH show ?thesis
        unfolding res split by (auto simp: map_filter_append)
    qed
  qed
qed

lemma batch_loop_known:
  "fst ` set (List.map_filter (built entry) (complete_batches (raises entry) bs (drop i items)))
     \<subseteq> ids_of g \<Longrightarrow>
   map fst (collection (self (batch_loop sched bs (process_batch entry) items i g)))
     = map fst (collection (self g))"
proof (induction "length items - i" arbitrary: i g rule: less_induct)
  case less
  show ?case
  proof (cases "bs = 0 \<or> length items \<le> i \<or> is_cancelled (self g)")
    case True
    then show ?thesis by (simp add: batch_loop_stop)
  next
    case False
    let ?msg = "ProcessingBatch (i div bs + 1) (min (i + bs) (length items)) (length items)"
    show ?thesis
    proof (cases "process_batch entry (take bs (drop i items)) (collection (self g))")
      case (Inl err)
      then show ?thesis using False by (simp add: batch_loop_raise)
    next
      case (Inr c)
      let ?next = "(yield sched ?msg g)\<lparr>self := (self (yield sched ?msg g))\<lparr>collection := c\<rparr>\<rparr>"
      have res: "batch_loop sched bs (process_batch entry) items i g
          = batch_loop sched bs (process_batch entry) items (i + bs) ?next"
        using False Inr by (simp add: batch_loop_step)
      have ok: "\<not> list_ex (raises entry) (take bs (drop i items))"
        using Inr process_batch_raises [of entry "take bs (drop i items)" "collection (self g)" OSError]
        by simp
      have split: "complete_batches (raises entry) bs (drop i items)
          = take bs (drop i items) @ complete_batches (raises entry) bs (drop (i + bs) items)"
        using False ok by (simp add: complete_batches_step)
      have known: "fst ` set (List.map_filter (built entry) (take bs (drop i items)))
            \<subseteq> fst ` set (collection (self g))"
        and rest: "fst ` set (List.map_filter (built entry)
              (complete_batches (raises entry) bs (drop (i + bs) items)))
            \<subseteq> fst ` set (collection (self g))"
        using less.prems unfolding split ids_of_def by (auto simp: map_filter_append)
      have same: "map fst c = map fst (collection (self g))"
        using map_fst_process_batch_known [OF Inr known] .
      then have "fst ` set c = fst ` set (collection (self g))"
        by (metis list.set_map)
      then have rest': "fst ` set (List.map_filter (built entry)
              (complete_batches (raises entry) bs (drop (i + bs) items))) \<subseteq> ids_of ?next"
        using rest by (simp add: ids_of_def)
      have "length items - (i + bs) < length items - i" using False by auto
      from less.hyps [OF this rest'] same
      show ?thesis unfolding res by simp
    qed
  qed
qed

lemma batch_loop_not_raised:
  "\<forall>x. \<not> raises entry x \<Longrightarrow>
   raised (batch_loop sched bs (process_batch entry) items i g) = raised g"
proof (induction "length items - i" arbitrary: i g rule: less_induct)
  case less
  show ?case
  proof (cases "bs = 0 \<or> length items \<le> i \<or> is_cancelled (self g)")
    case True
    then show ?thesis by (simp add: batch_loop_stop)
  next
    case False
    have "\<not> list_ex (raises entry) (take bs (drop i items))"
      using less.prems by (simp add: list_ex_iff)
    then obtain c where c: "process_batch entry (take bs (drop i items)) (collection (self g)) = Inr c"
      using process_batch_raises [of entry "take bs (drop i items)" "collection (self g)" OSError]
      by (cases "process_batch entry (take bs (drop i items)) (collection (self g))") auto
    have "length items - (i + bs) < length items - i" using False by auto
    from less.hyps [OF this less.prems] show ?thesis
      using False c by (simp add: batch_loop_step)
  qed
qed

lemma batch_loop_raised_last:
  "raised g = None \<Longrightarrow> raised (batch_loop sched bs process items i g) \<noteq> None \<Longrightarrow>
   is_batch (last (yielded (batch_loop sched bs process items i g)))"
proof (induction "length items - i" arbitrary: i g rule: less_induct)
  case less
  show ?case
  proof (cases "bs = 0 \<or> length items \<le> i \<or> is_cancelled (self g)")
    case True
    then show ?thesis using less.prems by (simp add: batch_loop_stop)
  next
    case False
    show ?thesis
    proof (cases "process (take bs (drop i items)) (collection (self g))")
      case (Inl err)
      then show ?thesis using False by (simp add: batch_loop_raise yield_def)
    next
      case (Inr c)
      let ?g = "(yield sched (ProcessingBatch (i div bs + 1) (min (i + bs) (length items)) (length items)) g)
          \<lparr>self := (self (yield sched (ProcessingBatch (i div bs + 1) (min (i + bs) (length items))
                                  (length items)) g))\<lparr>collection := c\<rparr>\<rparr>"
      have step: "batch_loop sched bs process items i g = batch_loop sched bs process items (i + bs) ?g"
        using False Inr by (simp add: batch_loop_step)
      have quiet: "raised ?g = None" using less.prems(1) by (simp add: yield_def)
      have "length items - (i + bs) < length items - i" using False by auto
      from less.hyps [OF this quiet] less.prems(2) show ?thesis
        unfolding step by simp
    qed
  qed
qed

text \<open>The entries of the two kinds of source.\<close>

lemma local_entry_ids:
  "map fst (List.map_filter (built (local_entry w root_path)) paths)
     = map (\<lambda>names. ''local::'' @ foldl os_path_join root_path names)
         (filter (\<lambda>names. stat_found w (foldl os_path_join root_path names)) paths)"
  by (induction paths)
     (auto simp: built_def local_entry_def local_id_def stat_found_def Let_def
        split: stat_outcome.splits)

lemma raises_local_entry:
  "raises (local_entry w root_path)
     = (\<lambda>names. stat_raises w (foldl os_path_join root_path names))"
  by (rule ext) (simp add: raises_def local_entry_def stat_raises_def Let_def
        split: stat_outcome.splits)

lemma built_no_raise [simp]: "built (\<lambda>x. Inr (r x)) = r"
  by (rule ext) (simp add: built_def)

lemma raises_no_raise [simp]: "raises (\<lambda>x. Inr (r x)) y = False"
  by (simp add: raises_def)

lemma repo_entry_ids:
  "map fst (List.map_filter (repo_entry w url base) files)
     = map (\<lambda>f. ''repo::'' @ url @ ''::'' @ fm_path f) (filter (fetched w base) files)"
  by (induction files)
     (auto simp: repo_entry_def repo_id_def fetched_def Let_def
        split: sum.splits)

lemma set_map_fst: "fst ` set xs = set (map fst xs)"
  by simp

text \<open>What a run writes as a whole.\<close>

lemma list_ex_False [simp]: "list_ex (\<lambda>x. False) xs = False"
  by (simp add: list_ex_iff)

lemma raised_index_repository: "raised (index_repository w sched url g) = raised g"
proof (cases "get_repo_files w url")
  case (Inl error)
  then show ?thesis by (simp add: index_repository_def)
next
  case (Inr r)
  obtain files base where r: "r = (files, base)" by (cases r)
  have "\<forall>x. \<not> raises (\<lambda>f. Inr (repo_entry w url base f)) x" by simp
  from batch_loop_not_raised [OF this] show ?thesis
    using Inr r by (simp add: index_repository_def Let_def)
qed

lemma run_ids_never:
  "ids_of (index_directory w never src e) = fst ` set (collection e) \<union> set (source_ids w src)"
proof -
  let ?init = "\<lparr>self = e\<lparr>is_cancelled := False\<rparr>, yielded = [], raised = None\<rparr>"
  have nv: "\<forall>k. \<not> never k" by (simp add: never_def)
  have nc: "\<not> is_cancelled (self (yield never b (yield never a ?init)))" for a b
    by (simp add: never_def)
  have loop: "ids_of (batch_loop never bs (process_batch entry) items 0 (yield never b (yield never a ?init)))
      = fst ` set (collection e)
        \<union> set (map fst (List.map_filter (built entry) (complete_batches (raises entry) bs items)))"
    if "bs \<noteq> 0" for bs a b items and entry :: "'a \<Rightarrow> os_error + (string \<times> item) option"
    using batch_loop_ids_never [OF nv nc that, of entry items 0 b a]
    by (simp add: ids_of_def)
  show ?thesis
  proof (cases "remote src")
    case True
    show ?thesis
    proof (cases "get_repo_files w src")
      case (Inl error)
      then show ?thesis using True
        by (simp add: index_directory_def index_repository_def remote_def source_ids_def
              repo_ids_def ids_of_def)
    next
      case (Inr r)
      obtain files base where r: "r = (files, base)" by (cases r)
      have all: "complete_batches (raises (\<lambda>f. Inr (repo_entry w src base f))) 50 files = files"
        by (rule complete_batches_all) (simp_all add: list_ex_iff)
      show ?thesis using True Inr r
        by (simp add: index_directory_def index_repository_def remote_def source_ids_def
              repo_ids_def Let_def loop all repo_entry_ids)
    qed
  next
    case False
    show ?thesis
    proof (cases "os_isdir w src")
      case True
      have "\<not> never 0" by (simp add: never_def)
      then show ?thesis using False True
        by (simp add: index_directory_def index_local_directory_def remote_def source_ids_def
              local_ids_def Let_def loop local_entry_ids raises_local_entry)
    next
      case nd: False
      then show ?thesis using False
        by (simp add: index_directory_def index_local_directory_def remote_def source_ids_def
              ids_of_def)
    qed
  qed
qed

lemma run_known:
  assumes "set (source_ids w src) \<subseteq> fst ` set (collection e)"
  shows "map fst (collection (self (index_directory w sched src e))) = map fst (collection e)"
proof -
  let ?init = "\<lparr>self = e\<lparr>is_cancelled := False\<rparr>, yielded = [], raised = None\<rparr>"
  have loop: "map fst (collection (self (batch_loop sched bs (process_batch entry) items 0
                 (yield sched b (yield sched a ?init))))) = map fst (collection e)"
    if "set (map fst (List.map_filter (built entry) (complete_batches (raises entry) bs items)))
          \<subseteq> fst ` set (collection e)"
    for bs a b items and entry :: "'a \<Rightarrow> os_error + (string \<times> item) option"
    using batch_loop_known [of entry bs 0 items "yield sched b (yield sched a ?init)" sched] that
    by (simp add: ids_of_def)
  show ?thesis
  proof (cases "remote src")
    case True
    show ?thesis
    proof (cases "get_repo_files w src")
      case (Inl error)
      then show ?thesis using True
        by (simp add: index_directory_def index_repository_def remote_def)
    next
      case (Inr r)
      obtain files base where r: "r = (files, base)" by (cases r)
      have all: "complete_batches (raises (\<lambda>f. Inr (repo_entry w src base f))) 50 files = files"
        by (rule complete_batches_all) (simp_all add: list_ex_iff)
      have "set (map fst (List.map_filter (built (\<lambda>f. Inr (repo_entry w src base f)))
                (complete_batches (raises (\<lambda>f. Inr (repo_entry w src base f))) 50 files)))
          \<subseteq> fst ` set (collection e)"
        using assms True Inr r unfolding all
        by (simp add: source_ids_def repo_ids_def repo_entry_ids)
      from loop [OF this] show ?thesis using True Inr r
        by (simp add: index_directory_def index_repository_def remote_def Let_def)
    qed
  next
    case False
    show ?thesis
    proof (cases "os_isdir w src")
      case True
      have "set (map fst (List.map_filter (built (local_entry w src))
                (complete_batches (raises (local_entry w src)) 128 (walk False [] (os_walk w src)))))
          \<subseteq> fst ` set (collection e)"
        using assms True False
        by (simp add: source_ids_def local_ids_def local_entry_ids raises_local_entry)
      from loop [OF this] show ?thesis using True False
        by (simp add: index_directory_def index_local_directory_def remote_def Let_def)
    next
      case nd: False
      then show ?thesis using False
        by (simp add: index_directory_def index_local_directory_def remote_def)
    qed
  qed
qed

lemma get_repo_files_clock: "get_repo_files (w\<lparr>clock := t\<rparr>) url = get_repo_files w url"
  by (simp add: get_repo_files_def split: sum.splits prod.splits)

lemma fetched_clock: "fetched (w\<lparr>clock := t\<rparr>) base = fetched w base"
  by (rule ext) (simp add: fetched_def)

lemma stat_clock:
  "stat_found (w\<lparr>clock := t\<rparr>) = stat_found w" "stat_raises (w\<lparr>clock := t\<rparr>) = stat_raises w"
  by (rule ext, simp add: stat_found_def stat_raises_def)+

lemma source_ids_clock: "source_ids (w\<lparr>clock := t\<rparr>) src = source_ids w src"
  by (simp add: source_ids_def repo_ids_def local_ids_def get_repo_files_clock fetched_clock
        stat_clock split: sum.splits prod.splits)

section \<open>Identity and re-indexing\<close>

text \<open>
  C3. The id of an item is the source-type prefix composed with its path (and, for a remote
  item, the repository URL): a complete run leaves in the index the ids it held before and
  exactly the ids \<open>source_ids\<close> of the source, which do not depend on the time of the run.
  Indexing the same unchanged source a second time therefore upserts the same ids, leaves
  the list of stored ids as it was, and yields the same item count.
\<close>

theorem reindex_same_ids:
  "ids_of (index_directory w never src e) = fst ` set (collection e) \<union> set (source_ids w src)
   \<and> source_ids (w\<lparr>clock := t\<rparr>) src = source_ids w src
   \<and> coll_get_ids (collection (self (index_directory (w\<lparr>clock := t\<rparr>) never src
         (self (index_directory w never src e)))))
       = coll_get_ids (collection (self (index_directory w never src e)))
   \<and> count (index_directory (w\<lparr>clock := t\<rparr>) never src (self (index_directory w never src e)))
       = count (index_directory w never src e)"
proof -
  let ?first = "index_directory w never src e"
  have ids: "ids_of ?first = fst ` set (collection e) \<union> set (source_ids w src)"
    by (rule run_ids_never)
  have "set (source_ids (w\<lparr>clock := t\<rparr>) src) \<subseteq> fst ` set (collection (self ?first))"
    using ids by (simp add: source_ids_clock ids_of_def)
  from run_known [OF this, of never]
  have same: "map fst (collection (self (index_directory (w\<lparr>clock := t\<rparr>) never src (self ?first))))
      = map fst (collection (self ?first))" .
  then have "length (collection (self (index_directory (w\<lparr>clock := t\<rparr>) never src (self ?first))))
      = length (collection (self ?first))"
    by (metis length_map)
  with ids same show ?thesis
    by (simp add: source_ids_clock coll_get_ids_def count_def coll_count_def)
qed

theorem reindex_same_ids_witness:
  "source_ids sample_world ''/p''
     = [''local::/p/.env'', ''local::/p/logo.png'', ''local::/p/src'', ''local::/p/src/a.py'']
   \<and> count (index_directory sample_world never ''/p'' empty_explorer) = 4
   \<and> count (index_directory (sample_world\<lparr>clock := 1\<rparr>) never ''/p''
        (self (index_directory sample_world never ''/p'' empty_explorer))) = 4"
proof -
  have a: "source_ids sample_world ''/p''
     = [''local::/p/.env'', ''local::/p/logo.png'', ''local::/p/src'', ''local::/p/src/a.py'']"
    by code_simp
  have b: "count (index_directory sample_world never ''/p'' empty_explorer) = 4"
    by code_simp
  from reindex_same_ids [of sample_world "''/p''" empty_explorer 1] a b
  show ?thesis by simp
qed

section \<open>Cancellation\<close>

text \<open>
  A cancellation at a status that is not the last one of the run: the flag is seen at the
  next test, in the enumeration loop or at the top of a round of the batch loop.
\<close>

lemma cancel_not_last:
  assumes k: "sched k" "k + 1 < length (yielded (index_directory w sched src e))"
  shows "(raised (index_directory w sched src e) = None \<longrightarrow>
           render (last (yielded (index_directory w sched src e)))
             = ''Build cancelled. The database now contains ''
                 @ str_nat (coll_count (collection (self (index_directory w sched src e))))
                 @ '' items.''
           \<or> render (last (yielded (index_directory w sched src e)))
             = ''Build cancelled. DB size: ''
                 @ str_nat (coll_count (collection (self (index_directory w sched src e))))
           \<or> (\<exists>error. remote src \<and> get_repo_files w src = Inl error
                 \<and> yielded (index_directory w sched src e) = [FetchingList, ErrorMsg error]))
       \<and> (\<forall>j. k < j \<and> j < length (yielded (index_directory w sched src e))
              \<longrightarrow> \<not> is_batch (yielded (index_directory w sched src e) ! j))
       \<and> is_cancelled (self (index_directory w sched src e))"
proof -
  let ?run = "index_directory w sched src e"
  let ?init = "\<lparr>self = e\<lparr>is_cancelled := False\<rparr>, yielded = [], raised = None\<rparr>"
  have coh0: "coherent sched ?init" by (rule coherent_start)
  have goal: "(raised ?run = None \<longrightarrow>
            last (yielded ?run) = BuildCancelled (count ?run)
          \<or> last (yielded ?run) = CancelledScan (count ?run)
          \<or> (\<exists>error. remote src \<and> get_repo_files w src = Inl error
                \<and> yielded ?run = [FetchingList, ErrorMsg error]))
       \<and> (\<forall>j. k < j \<and> j < length (yielded ?run) \<longrightarrow> \<not> is_batch (yielded ?run ! j))
       \<and> is_cancelled (self ?run)"
  proof (cases "remote src")
    case True
    then have g: "?run = index_repository w sched src ?init"
      by (simp add: index_directory_def remote_def)
    let ?first = "yield sched FetchingList ?init"
    show ?thesis
    proof (cases "get_repo_files w src")
      case (Inl error)
      then have ys: "?run = yield sched (ErrorMsg error) ?first"
        unfolding g by (simp add: index_repository_def)
      then have y2: "yielded ?run = [FetchingList, ErrorMsg error]" by simp
      then have "k = 0" using k by simp
      then have "is_cancelled (self ?run)" using k(1) ys by simp
      then show ?thesis using y2 True Inl by (auto simp: nth_Cons')
    next
      case (Inr r)
      obtain files base where r: "r = (files, base)" by (cases r)
      let ?second = "yield sched (FoundFiles (length files)) ?first"
      have fin: "?run = final_status sched (batch_loop sched 50
                   (process_batch (\<lambda>f. Inr (repo_entry w src base f))) files 0 ?second)"
        unfolding g using Inr r by (simp add: index_repository_def Let_def)
      have coh2: "coherent sched ?second" by (intro coherent_yield coh0)
      have quiet: "list_all (\<lambda>s. \<not> is_batch s) (yielded ?second)" by simp
      from finish_cancelled [OF coh2 quiet fin k] show ?thesis by simp
    qed
  next
    case False
    then have g: "?run = index_local_directory w sched src ?init"
      by (simp add: index_directory_def remote_def)
    show ?thesis
    proof (cases "os_isdir w src")
      case nd: False
      then have "yielded ?run = [NotADirectory]"
        unfolding g by (simp add: index_local_directory_def)
      then show ?thesis using k by simp
    next
      case True
      let ?first = "yield sched Scanning ?init"
      show ?thesis
      proof (cases "sched 0")
        case c0: True
        then have ys: "?run = yield sched (CancelledScan (count ?first)) ?first"
          unfolding g using True by (simp add: index_local_directory_def Let_def)
        then have "yielded ?run = [Scanning, CancelledScan (count ?run)]"
            and "is_cancelled (self ?run)"
          using c0 by simp_all
        then show ?thesis by (auto simp: nth_Cons')
      next
        case c0: False
        let ?paths = "walk False [] (os_walk w src)"
        let ?second = "yield sched (ScanComplete (length ?paths)) ?first"
        let ?loop = "batch_loop sched 128 (process_batch (local_entry w src)) ?paths 0 ?second"
        have coh2: "coherent sched ?second" by (intro coherent_yield coh0)
        have quiet: "list_all (\<lambda>s. \<not> is_batch s) (yielded ?second)" by simp
        show ?thesis
        proof (cases "raised ?loop = None")
          case True
          then have fin: "?run = final_status sched ?loop"
            unfolding g using \<open>os_isdir w src\<close> c0
            by (simp add: index_local_directory_def Let_def)
          from finish_cancelled [OF coh2 quiet fin k] show ?thesis by simp
        next
          case False
          then have fin: "?run = ?loop"
            unfolding g using \<open>os_isdir w src\<close> c0
            by (simp add: index_local_directory_def Let_def)
          have "k < length (yielded ?loop)" using k(2) fin by simp
          from after_loop [OF coh2 quiet k(1) this]
          have "is_cancelled (self ?loop)
              \<and> (\<forall>j. k < j \<and> j < length (yielded ?loop) \<longrightarrow> \<not> is_batch (yielded ?loop ! j))" .
          then have "is_cancelled (self ?run)
              \<and> (\<forall>j. k < j \<and> j < length (yielded ?run) \<longrightarrow> \<not> is_batch (yielded ?run ! j))"
            using fin by metis
          moreover have "raised ?run \<noteq> None" using False fin by metis
          ultimately show ?thesis by blast
        qed
      qed
    qed
  qed
  have "render (BuildCancelled n) = ''Build cancelled. The database now contains '' @ str_nat n @ '' items.''"
    and "render (CancelledScan n) = ''Build cancelled. DB size: '' @ str_nat n" for n
    by simp_all
  with goal show ?thesis
    unfolding count_def by metis
qed

text \<open>A run that does not raise ends with a terminal status.\<close>

lemma terminal_last:
  assumes "raised (index_directory w sched src e) = None"
  shows "is_terminal (last (yielded (index_directory w sched src e)))"
proof (cases "remote src")
  case True
  then show ?thesis
    by (cases "get_repo_files w src")
       (auto simp: index_directory_def index_repository_def remote_def Let_def
          yielded_final_status split: prod.splits)
next
  case False
  then show ?thesis using assms
    by (auto simp: index_directory_def index_local_directory_def remote_def Let_def
          yielded_final_status split: if_splits)
qed

text \<open>
  C4 (as amended). The flag is tested at the top of every round of a batch loop and at the
  top of the enumeration loop. If the driver cancels while the run is suspended at its
  \<open>k\<close>-th status and that status is not a terminal one, then the flag is set at the end
  and no batch status follows position \<open>k\<close> (so no batch is started after the one in
  flight). If moreover no exception leaves the run, its last status is a
  \<open>Build cancelled\<close> message that reports the size of the index at that moment; the one
  exception is a repository run whose file listing fails after the cancellation: its last
  status is the listing error. Nothing is stated about a run that an exception leaves:
  the batch in flight can raise, as \<open>cancel_then_stat_error\<close> below shows.
\<close>

theorem cancel_ends_run:
  assumes "sched k" and "k < length (yielded (index_directory w sched src e))"
    and "\<not> is_terminal (yielded (index_directory w sched src e) ! k)"
  shows "is_cancelled (self (index_directory w sched src e))
       \<and> (\<forall>j. k < j \<and> j < length (yielded (index_directory w sched src e))
              \<longrightarrow> \<not> is_batch (yielded (index_directory w sched src e) ! j))
       \<and> (raised (index_directory w sched src e) = None \<longrightarrow>
           render (last (yielded (index_directory w sched src e)))
             = ''Build cancelled. The database now contains ''
                 @ str_nat (coll_count (collection (self (index_directory w sched src e))))
                 @ '' items.''
           \<or> render (last (yielded (index_directory w sched src e)))
             = ''Build cancelled. DB size: ''
                 @ str_nat (coll_count (collection (self (index_directory w sched src e))))
           \<or> (\<exists>error. remote src \<and> get_repo_files w src = Inl error
                 \<and> yielded (index_directory w sched src e) = [FetchingList, ErrorMsg error]))"
proof -
  let ?run = "index_directory w sched src e"
  have flag: "is_cancelled (self ?run)"
    using coherent_index_directory [of sched w src e] assms(1,2)
    by (auto simp: coherent_def)
  have batches: "\<forall>j. k < j \<and> j < length (yielded ?run) \<longrightarrow> \<not> is_batch (yielded ?run ! j)"
  proof (cases "k + 1 < length (yielded ?run)")
    case True
    from cancel_not_last [OF assms(1) True] show ?thesis by blast
  next
    case False
    then show ?thesis by auto
  qed
  have ending: "render (last (yielded ?run))
             = ''Build cancelled. The database now contains ''
                 @ str_nat (coll_count (collection (self ?run))) @ '' items.''
           \<or> render (last (yielded ?run))
             = ''Build cancelled. DB size: '' @ str_nat (coll_count (collection (self ?run)))
           \<or> (\<exists>error. remote src \<and> get_repo_files w src = Inl error
                 \<and> yielded ?run = [FetchingList, ErrorMsg error])"
    if quiet: "raised ?run = None"
  proof -
    have ne: "yielded ?run \<noteq> []" using assms(2) by auto
    from terminal_last [OF quiet] have "is_terminal (yielded ?run ! (length (yielded ?run) - 1))"
      using ne by (simp add: last_conv_nth)
    with assms(3) have "k \<noteq> length (yielded ?run) - 1" by auto
    with assms(2) have "k + 1 < length (yielded ?run)" by simp
    from cancel_not_last [OF assms(1) this] quiet show ?thesis by blast
  qed
  from flag batches ending show ?thesis by blast
qed

text \<open>
  A local run over four entries, cancelled while it is suspended at the status of its only
  batch: the batch is finished and the run ends with the cancelled message.
\<close>

theorem cancel_ends_run_witness:
  "at_yield 2 2
   \<and> 2 < length (yielded (index_directory sample_world (at_yield 2) ''/p'' empty_explorer))
   \<and> \<not> is_terminal (yielded (index_directory sample_world (at_yield 2) ''/p'' empty_explorer) ! 2)
   \<and> raised (index_directory sample_world (at_yield 2) ''/p'' empty_explorer) = None
   \<and> is_cancelled (self (index_directory sample_world (at_yield 2) ''/p'' empty_explorer))
   \<and> \<not> is_batch (yielded (index_directory sample_world (at_yield 2) ''/p'' empty_explorer) ! 3)
   \<and> render (last (yielded (index_directory sample_world (at_yield 2) ''/p'' empty_explorer)))
       = ''Build cancelled. The database now contains 4 items.''"
proof -
  have h1: "at_yield 2 2" by (simp add: at_yield_def)
  have h2: "2 < length (yielded (index_directory sample_world (at_yield 2) ''/p'' empty_explorer))"
    by code_simp
  have h3: "\<not> is_terminal (yielded (index_directory sample_world (at_yield 2) ''/p'' empty_explorer) ! 2)"
    by code_simp
  have q: "raised (index_directory sample_world (at_yield 2) ''/p'' empty_explorer) = None"
    by code_simp
  have r: "render (last (yielded (index_directory sample_world (at_yield 2) ''/p'' empty_explorer)))
       = ''Build cancelled. The database now contains 4 items.''"
    by code_simp
  have l: "3 < length (yielded (index_directory sample_world (at_yield 2) ''/p'' empty_explorer))"
    by code_simp
  from cancel_ends_run [OF h1 h2 h3] h1 h2 h3 q r l show ?thesis by simp
qed

text \<open>
  C4 as stated fails on this run: the driver cancels at the first status of a repository
  run, the file listing then fails, and the last status is the error, with no cancelled
  phrasing and no index size.
\<close>

theorem cancel_then_listing_error:
  "at_yield 0 0
   \<and> yielded (index_directory sample_world (at_yield 0) ''https://github.com/o/down'' empty_explorer)
       = [FetchingList, ErrorMsg ''rate limit exceeded'']
   \<and> is_cancelled (self (index_directory sample_world (at_yield 0) ''https://github.com/o/down''
        empty_explorer))
   \<and> render (last (yielded (index_directory sample_world (at_yield 0) ''https://github.com/o/down''
        empty_explorer))) = ''Error: rate limit exceeded''
   \<and> \<not> sublist ''cancelled'' (render (last (yielded (index_directory sample_world (at_yield 0)
        ''https://github.com/o/down'' empty_explorer))))"
  by code_simp

text \<open>
  The batch in flight can raise. Here the driver cancels while the run is suspended at the
  status of its only batch; \<^verbatim>\<open>os.stat\<close> then raises on the second path of the batch, the
  exception leaves the generator, nothing of the batch is written, and the status of the
  batch stays the last one. A run that is never cancelled raises at the same place.
\<close>

lemma cancel_then_stat_error:
  "yielded (index_directory looping_world (at_yield 2) ''/p'' empty_explorer)
     = [Scanning, ScanComplete 2, ProcessingBatch 1 2 2]
   \<and> raised (index_directory looping_world (at_yield 2) ''/p'' empty_explorer) = Some OSError
   \<and> is_cancelled (self (index_directory looping_world (at_yield 2) ''/p'' empty_explorer))
   \<and> collection (self (index_directory looping_world (at_yield 2) ''/p'' empty_explorer)) = []
   \<and> yielded (index_directory looping_world never ''/p'' empty_explorer)
     = [Scanning, ScanComplete 2, ProcessingBatch 1 2 2]
   \<and> raised (index_directory looping_world never ''/p'' empty_explorer) = Some OSError"
  by code_simp

lemma final_status_complete:
  assumes "\<forall>k. \<not> sched k" and "coherent sched g"
  shows "last (yielded (final_status sched (batch_loop sched bs process items i g)))
       = BuildComplete (count (final_status sched (batch_loop sched bs process items i g)))"
proof -
  have "coherent sched (batch_loop sched bs process items i g)"
    using batch_loop_cancel [OF assms(2), of bs process items i] by blast
  then have "\<not> is_cancelled (self (batch_loop sched bs process items i g))"
    using assms(1) by (simp add: coherent_def)
  then show ?thesis by (simp add: yielded_final_status)
qed

lemma raised_after_batch:
  assumes "raised (index_directory w sched src e) \<noteq> None"
  shows "is_batch (last (yielded (index_directory w sched src e)))"
proof (cases "remote src")
  case True
  then show ?thesis using assms
    by (simp add: index_directory_def remote_def raised_index_repository)
next
  case False
  let ?init = "\<lparr>self = e\<lparr>is_cancelled := False\<rparr>, yielded = [], raised = None\<rparr>"
  let ?first = "yield sched Scanning ?init"
  let ?paths = "walk (is_cancelled (self ?first)) [] (os_walk w src)"
  let ?second = "yield sched (ScanComplete (length ?paths)) ?first"
  let ?loop = "batch_loop sched 128 (process_batch (local_entry w src)) ?paths 0 ?second"
  have g: "index_directory w sched src e = index_local_directory w sched src ?init"
    using False by (simp add: index_directory_def remote_def)
  have quiet: "raised ?second = None" by simp
  show ?thesis
  proof (cases "os_isdir w src \<and> \<not> is_cancelled (self ?first) \<and> raised ?loop \<noteq> None")
    case True
    then have r: "raised ?loop \<noteq> None" by blast
    from True have eq: "index_directory w sched src e = ?loop"
      unfolding g by (auto simp: index_local_directory_def Let_def)
    from batch_loop_raised_last [OF quiet r] show ?thesis unfolding eq .
  next
    case False
    then have "raised (index_directory w sched src e) = None"
      unfolding g by (auto simp: index_local_directory_def Let_def)
    with assms show ?thesis by simp
  qed
qed

lemma never_cancelled_end:
  assumes "\<forall>k. \<not> sched k"
  shows "raised (index_directory w sched src e) \<noteq> None
           \<and> is_batch (last (yielded (index_directory w sched src e)))
         \<or> last (yielded (index_directory w sched src e))
           = BuildComplete (count (index_directory w sched src e))
         \<or> yielded (index_directory w sched src e) = [NotADirectory]
         \<or> (\<exists>error. yielded (index_directory w sched src e) = [FetchingList, ErrorMsg error])"
proof -
  have coh2: "coherent sched (yield sched b (yield sched a \<lparr>self = e\<lparr>is_cancelled := False\<rparr>, yielded = [], raised = None\<rparr>))"
    for a b by (intro coherent_yield coherent_start)
  show ?thesis
  proof (cases "remote src")
    case True
    show ?thesis
    proof (cases "get_repo_files w src")
      case (Inl error)
      then show ?thesis using True
        by (simp add: index_directory_def index_repository_def remote_def)
    next
      case (Inr r)
      then show ?thesis using True
        by (simp add: index_directory_def index_repository_def remote_def Let_def
              final_status_complete [OF assms coh2] split: prod.splits)
    qed
  next
    case False
    show ?thesis
    proof (cases "os_isdir w src")
      case True
      show ?thesis
      proof (cases "raised (index_directory w sched src e) = None")
        case quiet: True
        then show ?thesis using True False assms
          by (auto simp: index_directory_def index_local_directory_def remote_def Let_def
                final_status_complete [OF assms coh2])
      next
        case False
        with raised_after_batch [OF False] show ?thesis by simp
      qed
    next
      case nd: False
      then show ?thesis using False
        by (simp add: index_directory_def index_local_directory_def remote_def)
    qed
  qed
qed

text \<open>
  C10. \<open>index_directory\<close> starts by resetting the flag, so a run started after
  \<open>cancel_indexing\<close> is the same run as one started without it. At the end of a run the
  flag is set exactly if the driver cancelled at one of the run's own statuses; a run whose
  driver never does so is not cancelled and ends with the complete message (or with the
  error of an invalid directory or a failed listing, or with the exception that
  \<^verbatim>\<open>os.stat\<close> raised in a batch).
\<close>

theorem stale_cancel_is_reset:
  "index_directory w sched src (cancel_indexing e) = index_directory w sched src e
   \<and> is_cancelled (self (index_directory w sched src e))
       = (\<exists>k < length (yielded (index_directory w sched src e)). sched k)
   \<and> ((\<forall>k. \<not> sched k) \<longrightarrow>
        \<not> is_cancelled (self (index_directory w sched src (cancel_indexing e)))
        \<and> (last (yielded (index_directory w sched src (cancel_indexing e)))
              = BuildComplete (coll_count (collection (self (index_directory w sched src (cancel_indexing e)))))
            \<or> yielded (index_directory w sched src (cancel_indexing e)) = [NotADirectory]
            \<or> (\<exists>error. yielded (index_directory w sched src (cancel_indexing e))
                  = [FetchingList, ErrorMsg error])
            \<or> raised (index_directory w sched src (cancel_indexing e)) \<noteq> None
              \<and> is_batch (last (yielded (index_directory w sched src (cancel_indexing e))))))"
proof -
  have same: "index_directory w sched src (cancel_indexing e) = index_directory w sched src e"
    by (simp add: index_directory_def cancel_indexing_def)
  have coh: "is_cancelled (self (index_directory w sched src e))
       = (\<exists>k < length (yielded (index_directory w sched src e)). sched k)"
    using coherent_index_directory [of sched w src e] by (simp add: coherent_def)
  show ?thesis
    using same coh never_cancelled_end [of sched w src e] by (auto simp: count_def)
qed

theorem stale_cancel_is_reset_witness:
  "(\<forall>k. \<not> never k)
   \<and> is_cancelled (cancel_indexing empty_explorer)
   \<and> \<not> is_cancelled (self (index_directory sample_world never ''/p'' (cancel_indexing empty_explorer)))
   \<and> map render (yielded (index_directory sample_world never ''/p'' (cancel_indexing empty_explorer)))
       = [''Scanning directories...'', ''Scan complete. Found 4 items to process.'',
          ''Processing batch 1... (4/4)'',
          ''Index build complete. The database now contains 4 items.'']"
proof -
  have h: "\<forall>k. \<not> never k" by (simp add: never_def)
  have c: "is_cancelled (cancel_indexing empty_explorer)" by (simp add: cancel_indexing_def)
  have ys: "map render (yielded (index_directory sample_world never ''/p'' (cancel_indexing empty_explorer)))
       = [''Scanning directories...'', ''Scan complete. Found 4 items to process.'',
          ''Processing batch 1... (4/4)'',
          ''Index build complete. The database now contains 4 items.'']"
    by code_simp
  from stale_cancel_is_reset [of sample_world never "''/p''" empty_explorer] h c ys
  show ?thesis by blast
qed

section \<open>Remote files that are not indexed\<close>

lemma stream_content_over:
  "length content \<le> max_size \<Longrightarrow> length content + length (concat chunks) > max_size
   \<Longrightarrow> stream_content max_size content chunks failure = Inl TooLargeStreaming"
  by (induction chunks arbitrary: content) (auto simp: Let_def)

lemma stream_content_ok:
  "stream_content max_size content chunks failure = Inr c \<Longrightarrow> c = content @ concat chunks"
proof (induction chunks arbitrary: content)
  case Nil
  then show ?case by (simp split: option.splits)
next
  case (Cons chunk chunks)
  from Cons.prems have "stream_content max_size (content @ chunk) chunks failure = Inr c"
    by (simp add: Let_def split: if_splits)
  from Cons.IH [OF this] show ?case by simp
qed

lemma fetch_rejects:
  assumes "exceeds_cap max_size r \<or> looks_binary r"
  shows "\<exists>err. get_remote_file_content max_size decode r = Inl err"
proof (cases r)
  case (RequestError e)
  then show ?thesis by (simp add: get_remote_file_content_def)
next
  case (Response len chunks failure)
  have stream: "\<exists>err. (case stream_content max_size [] chunks failure of
                        Inl err \<Rightarrow> Inl err
                      | Inr content \<Rightarrow> check_binary decode content) = Inl err"
    if "length (concat chunks) > max_size \<or> CHR 0x00 \<in> set (take 1024 (concat chunks))"
  proof (cases "stream_content max_size [] chunks failure")
    case (Inl err)
    then show ?thesis by simp
  next
    case (Inr c)
    then have c: "c = concat chunks" using stream_content_ok by fastforce
    have "\<not> length (concat chunks) > max_size"
      using Inr stream_content_over [of "[]" max_size chunks failure] by auto
    then show ?thesis using that Inr c by (simp add: check_binary_def)
  qed
  show ?thesis
  proof (cases len)
    case NoLength
    then show ?thesis using assms Response stream
      by (simp add: get_remote_file_content_def exceeds_cap_def looks_binary_def)
  next
    case (Length n)
    then show ?thesis using assms Response stream
      by (auto simp: get_remote_file_content_def exceeds_cap_def looks_binary_def)
  next
    case BadLength
    then show ?thesis using Response by (simp add: get_remote_file_content_def)
  qed
qed

lemma repo_ids_subset:
  "remote url \<Longrightarrow> ids_of (index_directory w sched url e)
      \<subseteq> fst ` set (collection e) \<union> set (repo_ids w url)"
proof -
  assume rem: "remote url"
  let ?init = "\<lparr>self = e\<lparr>is_cancelled := False\<rparr>, yielded = [], raised = None\<rparr>"
  show ?thesis
  proof (cases "get_repo_files w url")
    case (Inl error)
    then show ?thesis using rem
      by (simp add: index_directory_def index_repository_def remote_def ids_of_def)
  next
    case (Inr r)
    obtain files base where r: "r = (files, base)" by (cases r)
    let ?second = "yield sched (FoundFiles (length files)) (yield sched FetchingList ?init)"
    have "ids_of (batch_loop sched 50 (process_batch (\<lambda>f. Inr (repo_entry w url base f))) files 0
            ?second)
        \<subseteq> ids_of ?second
          \<union> fst ` set (List.map_filter (built (\<lambda>f. Inr (repo_entry w url base f))) (drop 0 files))"
      by (rule batch_loop_ids_subset)
    then show ?thesis using rem Inr r repo_entry_ids [of w url base files, THEN arg_cong, of set]
      by (simp add: index_directory_def index_repository_def remote_def Let_def repo_ids_def
            ids_of_def)
  qed
qed

lemma local_ids_subset:
  "\<not> remote src \<Longrightarrow> ids_of (index_directory w sched src e)
      \<subseteq> fst ` set (collection e)
        \<union> (\<lambda>names. local_id (foldl os_path_join src names)) ` set (walk False [] (os_walk w src))"
proof -
  assume loc: "\<not> remote src"
  let ?init = "\<lparr>self = e\<lparr>is_cancelled := False\<rparr>, yielded = [], raised = None\<rparr>"
  show ?thesis
  proof (cases "os_isdir w src \<and> \<not> sched 0")
    case False
    then show ?thesis using loc
      by (auto simp: index_directory_def index_local_directory_def remote_def ids_of_def Let_def)
  next
    case True
    let ?paths = "walk False [] (os_walk w src)"
    let ?second = "yield sched (ScanComplete (length ?paths)) (yield sched Scanning ?init)"
    let ?loop = "batch_loop sched 128 (process_batch (local_entry w src)) ?paths 0 ?second"
    have "ids_of ?loop
        \<subseteq> ids_of ?second \<union> fst ` set (List.map_filter (built (local_entry w src)) (drop 0 ?paths))"
      by (rule batch_loop_ids_subset)
    moreover have "fst ` set (List.map_filter (built (local_entry w src)) ?paths)
        \<subseteq> (\<lambda>names. local_id (foldl os_path_join src names)) ` set ?paths"
      using local_entry_ids [of w src ?paths, THEN arg_cong, of set]
      by (auto simp: local_id_def)
    moreover have "ids_of (index_directory w sched src e) = ids_of ?loop"
      using loc True
      by (simp add: index_directory_def index_local_directory_def remote_def Let_def)
    ultimately show ?thesis by (auto simp: ids_of_def)
  qed
qed

lemma not_fetched_not_listed:
  assumes "get_repo_files w url = Inr (files, base)" "\<not> fetched w base f"
  shows "repo_id url (fm_path f) \<notin> set (repo_ids w url)"
proof
  assume "repo_id url (fm_path f) \<in> set (repo_ids w url)"
  then obtain f' where "f' \<in> set files" "fetched w base f'" "fm_path f' = fm_path f"
    using assms(1) by (auto simp: repo_ids_def repo_id_def)
  then show False using assms(2) by (simp add: fetched_def)
qed

text \<open>
  C7. In a repository run, a file whose content exceeds the cap of 1,000,000 bytes (by the
  content-length header or by the bytes streamed) or has a null byte within its first 1024
  bytes is skipped: no entry is built for it, and its id, when the index did not hold it
  before, is not in the index after the run, whatever the cancellation schedule. The run is
  not aborted: an uncancelled run ends with the complete message and holds every file of
  the list whose content was fetched.
\<close>

theorem unfetchable_file_skipped:
  assumes "remote url"
    and "get_repo_files w url = Inr (files, base)"
    and "f \<in> set files"
    and "exceeds_cap 1000000 (http_get w (content_url w base (fm_path f)))
         \<or> looks_binary (http_get w (content_url w base (fm_path f)))"
    and "repo_id url (fm_path f) \<notin> fst ` set (collection e)"
  shows "repo_entry w url base f = None
     \<and> repo_id url (fm_path f) \<notin> ids_of (index_directory w sched url e)
     \<and> last (yielded (index_directory w never url e))
         = BuildComplete (count (index_directory w never url e))
     \<and> (\<forall>f' \<in> set files. fetched w base f'
           \<longrightarrow> repo_id url (fm_path f') \<in> ids_of (index_directory w never url e))"
proof -
  from fetch_rejects [OF assms(4), of "utf8_decode w"]
  obtain err where err: "get_remote_file_content 1000000 (utf8_decode w)
      (http_get w (content_url w base (fm_path f))) = Inl err" by blast
  then have skip: "repo_entry w url base f = None"
    by (simp add: repo_entry_def Let_def)
  have nf: "\<not> fetched w base f" using err by (simp add: fetched_def)
  have absent: "repo_id url (fm_path f) \<notin> ids_of (index_directory w sched url e)"
    using repo_ids_subset [OF assms(1), of w sched e] not_fetched_not_listed [OF assms(2) nf] assms(5)
    by auto
  have nv: "\<forall>k. \<not> never k" by (simp add: never_def)
  have fin: "last (yielded (index_directory w never url e))
         = BuildComplete (count (index_directory w never url e))"
  proof -
    have "raised (index_directory w never url e) = None"
      using assms(1) by (simp add: index_directory_def remote_def raised_index_repository)
    then show ?thesis
      using never_cancelled_end [OF nv, of w url e] assms(1,2)
      by (auto simp: index_directory_def index_repository_def remote_def Let_def
            yielded_final_status)
  qed
  have others: "\<forall>f' \<in> set files. fetched w base f'
           \<longrightarrow> repo_id url (fm_path f') \<in> ids_of (index_directory w never url e)"
    using assms(1,2) by (auto simp: run_ids_never source_ids_def repo_ids_def repo_id_def)
  from skip absent fin others show ?thesis by blast
qed

lemma sample_paths_excluded:
  "is_excluded ''img/logo.png''" "is_excluded ''node_modules/x.js''" "\<not> is_excluded ''.env''"
  "\<not> is_excluded ''big.txt''" "\<not> is_excluded ''blob.dat''" "\<not> is_excluded ''a.py''"
  by code_simp+

theorem unfetchable_file_skipped_witness:
  "remote ''https://github.com/o/r''
   \<and> get_repo_files sample_world ''https://github.com/o/r''
       = Inr ([\<lparr>fm_path = ''.env'', fm_size = Some 3\<rparr>,
               \<lparr>fm_path = ''big.txt'', fm_size = Some 2000000\<rparr>,
               \<lparr>fm_path = ''blob.dat'', fm_size = Some 4\<rparr>,
               \<lparr>fm_path = ''a.py'', fm_size = Some 3\<rparr>], ''https://raw/'')
   \<and> exceeds_cap 1000000 (http_get sample_world ''https://raw/big.txt'')
   \<and> looks_binary (http_get sample_world ''https://raw/blob.dat'')
   \<and> repo_id ''https://github.com/o/r'' ''big.txt''
       \<notin> ids_of (index_directory sample_world never ''https://github.com/o/r'' empty_explorer)
   \<and> repo_id ''https://github.com/o/r'' ''blob.dat''
       \<notin> ids_of (index_directory sample_world never ''https://github.com/o/r'' empty_explorer)
   \<and> last (yielded (index_directory sample_world never ''https://github.com/o/r'' empty_explorer))
       = BuildComplete (count (index_directory sample_world never ''https://github.com/o/r''
           empty_explorer))"
proof -
  let ?files = "[\<lparr>fm_path = ''.env'', fm_size = Some 3\<rparr>,
               \<lparr>fm_path = ''big.txt'', fm_size = Some 2000000\<rparr>,
               \<lparr>fm_path = ''blob.dat'', fm_size = Some 4\<rparr>,
               \<lparr>fm_path = ''a.py'', fm_size = Some 3\<rparr>]"
  have h1: "remote ''https://github.com/o/r''" by code_simp
  have h2: "get_repo_files sample_world ''https://github.com/o/r'' = Inr (?files, ''https://raw/'')"
    by (simp add: get_repo_files_def sample_world_def sample_paths_excluded)
  have u1: "content_url sample_world ''https://raw/'' (fm_path \<lparr>fm_path = ''big.txt'', fm_size = Some 2000000\<rparr>)
      = ''https://raw/big.txt''"
    and u2: "content_url sample_world ''https://raw/'' (fm_path \<lparr>fm_path = ''blob.dat'', fm_size = Some 4\<rparr>)
      = ''https://raw/blob.dat''"
    by (simp_all add: sample_world_def)
  have c1: "exceeds_cap 1000000 (http_get sample_world ''https://raw/big.txt'')"
    by (simp add: exceeds_cap_def sample_world_def)
  have c2: "looks_binary (http_get sample_world ''https://raw/blob.dat'')"
    by (simp add: looks_binary_def sample_world_def)
  have e: "x \<notin> fst ` set (collection empty_explorer)" for x
    by (simp add: empty_explorer_def)
  from unfetchable_file_skipped [OF h1 h2, of "\<lparr>fm_path = ''big.txt'', fm_size = Some 2000000\<rparr>"
      empty_explorer never] c1 u1 e
  have a: "repo_id ''https://github.com/o/r'' ''big.txt''
       \<notin> ids_of (index_directory sample_world never ''https://github.com/o/r'' empty_explorer)"
    and fin: "last (yielded (index_directory sample_world never ''https://github.com/o/r'' empty_explorer))
       = BuildComplete (count (index_directory sample_world never ''https://github.com/o/r''
           empty_explorer))"
    by simp_all
  from unfetchable_file_skipped [OF h1 h2, of "\<lparr>fm_path = ''blob.dat'', fm_size = Some 4\<rparr>"
      empty_explorer never] c2 u2 e
  have b: "repo_id ''https://github.com/o/r'' ''blob.dat''
       \<notin> ids_of (index_directory sample_world never ''https://github.com/o/r'' empty_explorer)"
    by simp
  from h1 h2 c1 c2 a b fin show ?thesis by blast
qed

text \<open>The cap applies to the bytes that arrive as well, here with a cap of four bytes.\<close>

lemma streaming_cap_example:
  "get_remote_file_content 4 (\<lambda>s. s) (Response NoLength [''abc'', ''de''] None) = Inl TooLargeStreaming
   \<and> get_remote_file_content 4 (\<lambda>s. s) (Response NoLength [''abc'', ''d''] None) = Inr ''abcd''"
  by (simp add: get_remote_file_content_def check_binary_def)

section \<open>Exclusion rules\<close>

lemma join_contains: "c \<in> set cs \<Longrightarrow> sublist (c @ sep) (join sep cs @ sep)"
proof (induction sep cs rule: join.induct)
  case (1 sep)
  then show ?case by simp
next
  case (2 sep x)
  then show ?case by simp
next
  case (3 sep x y ys)
  show ?case
  proof (cases "c = x")
    case True
    have "sublist (x @ sep) ([] @ (x @ sep) @ (join sep (y # ys) @ sep))"
      by (rule sublist_appendI)
    then show ?thesis using True by simp
  next
    case False
    then have "sublist (c @ sep) (join sep (y # ys) @ sep)" using 3 by simp
    then have "sublist (c @ sep) ((x @ sep) @ (join sep (y # ys) @ sep))"
      by (metis sublist_append)
    then show ?thesis by simp
  qed
qed

lemma node_modules_excluded:
  assumes "''node_modules'' \<in> set (path_comps p)"
  shows "is_excluded p"
proof -
  have ne: "path_comps p \<noteq> []" using assms by auto
  have "sublist (''node_modules'' @ ''/'') (join ''/'' (path_comps p) @ ''/'')"
    using assms by (rule join_contains)
  then have "sublist ''node_modules/'' (path_root p @ (join ''/'' (path_comps p) @ ''/''))"
    by (metis sublist_append append.simps)
  then have "sublist ''node_modules/'' (as_posix p @ ''/'')"
    using ne by (simp add: as_posix_def)
  moreover have "''node_modules/'' \<in> set EXCLUDE_PATTERNS"
    by (simp add: EXCLUDE_PATTERNS_def)
  ultimately show ?thesis
    unfolding is_excluded_def Let_def by (meson)
qed

lemma png_excluded: "lower (path_suffix p) = ''.png'' \<Longrightarrow> is_excluded p"
  by (simp add: is_excluded_def EXCLUDE_EXTENSIONS_def)

lemma kept_files_not_excluded:
  "get_repo_files w url = Inr (files, base) \<Longrightarrow> f \<in> set files \<Longrightarrow> \<not> is_excluded (fm_path f)"
  by (auto simp: get_repo_files_def split: sum.splits prod.splits if_splits)

lemma repo_ids_kept:
  assumes "repo_id url p \<in> set (repo_ids w url)"
  shows "\<not> is_excluded p"
proof (cases "get_repo_files w url")
  case (Inl error)
  then show ?thesis using assms by (simp add: repo_ids_def)
next
  case (Inr r)
  obtain files base where r: "r = (files, base)" by (cases r)
  from assms Inr r obtain f where "f \<in> set files" "fm_path f = p"
    by (auto simp: repo_ids_def repo_id_def)
  then show ?thesis using kept_files_not_excluded Inr r by blast
qed

lemma walk_pruned:
  "names \<in> set (walk c pre children) \<Longrightarrow>
     \<exists>rest. names = pre @ rest \<and> rest \<noteq> [] \<and> set (butlast rest) \<inter> set pruned_dirs = {}"
  "names \<in> set (walk_dirs c pre children) \<Longrightarrow>
     \<exists>rest. names = pre @ rest \<and> rest \<noteq> [] \<and> set (butlast rest) \<inter> set pruned_dirs = {}"
proof (induction c pre children and c pre children arbitrary: names and names rule: walk_walk_dirs.induct)
  case (1 cancelled here children)
  then show ?case by (auto simp: walk.simps(1) Let_def split: if_splits)
next
  case (2 cancelled here)
  then show ?case by simp
next
  case (3 cancelled here n ns)
  then show ?case by simp
next
  case (4 cancelled here n cs ns)
  from "4.prems" consider
      (sub) "n \<notin> set pruned_dirs" "names \<in> set (walk cancelled (here @ [n]) cs)"
    | (rest) "names \<in> set (walk_dirs cancelled here ns)"
    by (auto split: if_splits)
  then show ?case
  proof cases
    case sub
    from "4.IH"(1) [OF sub] obtain rest where
      r: "names = (here @ [n]) @ rest" "rest \<noteq> []" "set (butlast rest) \<inter> set pruned_dirs = {}"
      by blast
    then have "names = here @ (n # rest) \<and> n # rest \<noteq> []
        \<and> set (butlast (n # rest)) \<inter> set pruned_dirs = {}"
      using sub(1) by simp
    then show ?thesis by blast
  next
    case rest
    then show ?thesis using "4.IH"(2) by blast
  qed
qed

lemma walk_no_node_modules:
  "names \<in> set (walk c [] children) \<Longrightarrow> ''node_modules'' \<notin> set (butlast names)"
proof -
  assume "names \<in> set (walk c [] children)"
  from walk_pruned(1) [OF this]
  have "set (butlast names) \<inter> set pruned_dirs = {}" by auto
  moreover have "''node_modules'' \<in> set pruned_dirs" by (simp add: pruned_dirs_def)
  ultimately show ?thesis by blast
qed

text \<open>An extension in the sense of \<open>path_suffix\<close> needs a non-empty stem before its dot.\<close>

lemma name_suffix_ext:
  assumes "stem \<noteq> []" "CHR ''.'' \<notin> set ext" "ext \<noteq> []"
  shows "name_suffix (stem @ CHR ''.'' # ext) = CHR ''.'' # ext"
proof -
  have "takeWhile (\<lambda>c. c \<noteq> CHR ''.'') (rev ext @ CHR ''.'' # rev stem) = rev ext"
    using assms(2) by (subst takeWhile_append2) auto
  then have "takeWhile (\<lambda>c. c \<noteq> CHR ''.'') (rev (stem @ CHR ''.'' # ext)) = rev ext"
    by simp
  then show ?thesis
    using assms unfolding name_suffix_def Let_def by (simp del: rev_append rev.simps)
qed

text \<open>
  The file named \<open>.env\<close> has no suffix, so the extension rule for \<open>.env\<close> does not
  match it and the repository filter keeps it.
\<close>

lemma dot_env_has_no_suffix:
  "path_suffix ''.env'' = [] \<and> \<not> is_excluded ''.env'' \<and> is_excluded ''prod.env''"
  by code_simp

text \<open>
  C1 (as amended). In a repository run, a path with a \<open>node_modules\<close> component or with
  the extension \<open>.png\<close> is dropped from the file list: its id, when the index did not hold
  it before, is not in the index after the run. In a local run, every id that the run adds
  belongs to an enumerated entry with no directory named \<open>node_modules\<close> above it (below
  the root): the walk does not descend into such a directory. A local run applies no rule
  to file names or extensions.
\<close>

theorem exclusion_rules:
  "(remote src \<and> (''node_modules'' \<in> set (path_comps p) \<or> lower (path_suffix p) = ''.png'')
      \<and> repo_id src p \<notin> fst ` set (collection e)
      \<longrightarrow> repo_id src p \<notin> ids_of (index_directory w sched src e))
   \<and> (\<not> remote src \<longrightarrow>
        ids_of (index_directory w sched src e)
          \<subseteq> fst ` set (collection e)
            \<union> (\<lambda>names. local_id (foldl os_path_join src names))
                ` {names \<in> set (walk False [] (os_walk w src)).
                     ''node_modules'' \<notin> set (butlast names)})"
proof (intro conjI impI)
  assume a: "remote src \<and> (''node_modules'' \<in> set (path_comps p) \<or> lower (path_suffix p) = ''.png'')
      \<and> repo_id src p \<notin> fst ` set (collection e)"
  then have "is_excluded p" using node_modules_excluded png_excluded by blast
  then have "repo_id src p \<notin> set (repo_ids w src)" using repo_ids_kept by blast
  then show "repo_id src p \<notin> ids_of (index_directory w sched src e)"
    using a repo_ids_subset [of src w sched e] by auto
next
  assume "\<not> remote src"
  from local_ids_subset [OF this, of w sched e]
  show "ids_of (index_directory w sched src e)
          \<subseteq> fst ` set (collection e)
            \<union> (\<lambda>names. local_id (foldl os_path_join src names))
                ` {names \<in> set (walk False [] (os_walk w src)).
                     ''node_modules'' \<notin> set (butlast names)}"
    using walk_no_node_modules by blast
qed

theorem exclusion_rules_witness:
  "remote ''https://github.com/o/r''
   \<and> ''node_modules'' \<in> set (path_comps ''node_modules/x.js'')
   \<and> lower (path_suffix ''img/logo.png'') = ''.png''
   \<and> repo_id ''https://github.com/o/r'' ''node_modules/x.js''
       \<notin> ids_of (index_directory sample_world never ''https://github.com/o/r'' empty_explorer)
   \<and> repo_id ''https://github.com/o/r'' ''img/logo.png''
       \<notin> ids_of (index_directory sample_world never ''https://github.com/o/r'' empty_explorer)
   \<and> \<not> remote ''/p''
   \<and> ''local::/p/node_modules/x.js''
       \<notin> ids_of (index_directory sample_world never ''/p'' empty_explorer)"
proof -
  have h1: "remote ''https://github.com/o/r''" by code_simp
  have h2: "''node_modules'' \<in> set (path_comps ''node_modules/x.js'')" by code_simp
  have h3: "lower (path_suffix ''img/logo.png'') = ''.png''" by code_simp
  have e: "x \<notin> fst ` set (collection empty_explorer)" for x
    by (simp add: empty_explorer_def)
  have h4: "\<not> remote ''/p''" by code_simp
  have wk: "walk False [] (os_walk sample_world ''/p'')
      = [ [''.env''], [''logo.png''], [''src''], [''src'', ''a.py''] ]"
    by code_simp
  have a: "repo_id ''https://github.com/o/r'' ''node_modules/x.js''
       \<notin> ids_of (index_directory sample_world never ''https://github.com/o/r'' empty_explorer)"
    using exclusion_rules [of "''https://github.com/o/r''" "''node_modules/x.js''" empty_explorer
        sample_world never] h1 h2 e by blast
  have b: "repo_id ''https://github.com/o/r'' ''img/logo.png''
       \<notin> ids_of (index_directory sample_world never ''https://github.com/o/r'' empty_explorer)"
    using exclusion_rules [of "''https://github.com/o/r''" "''img/logo.png''" empty_explorer
        sample_world never] h1 h3 e by blast
  have "ids_of (index_directory sample_world never ''/p'' empty_explorer)
      \<subseteq> (\<lambda>names. local_id (foldl os_path_join ''/p'' names))
          ` {names \<in> set (walk False [] (os_walk sample_world ''/p'')).
               ''node_modules'' \<notin> set (butlast names)}"
    using exclusion_rules [of "''/p''" "[]" empty_explorer sample_world never] h4 e by blast
  then have c: "''local::/p/node_modules/x.js''
       \<notin> ids_of (index_directory sample_world never ''/p'' empty_explorer)"
    unfolding wk by (auto simp: local_id_def os_path_join_def)
  from h1 h2 h3 a b h4 c show ?thesis by blast
qed

text \<open>
  C1 as stated fails on a local run: the files \<open>.env\<close> and \<open>logo.png\<close> of the scanned
  tree are in the index after the run.
\<close>

theorem local_run_indexes_env_and_png:
  "path_name ''/p/.env'' = ''.env''
   \<and> path_suffix ''/p/logo.png'' = ''.png''
   \<and> ''local::/p/.env'' \<in> ids_of (index_directory sample_world never ''/p'' empty_explorer)
   \<and> ''local::/p/logo.png'' \<in> ids_of (index_directory sample_world never ''/p'' empty_explorer)"
  by code_simp

section \<open>Index lifecycle\<close>

lemma coll_delete_all: "coll_delete (map fst c) c = []"
  by (simp add: coll_delete_def filter_empty_conv)

text \<open>
  C6. \<open>clear_index\<close> returns the count held before clearing and leaves the store at
  count 0, whatever the index held; the cancellation flag is untouched. Calling it again
  returns 0, and on an empty index it changes nothing and returns 0.
\<close>

theorem clear_index_count:
  "fst (clear_index e) = coll_count (collection e)
   \<and> coll_count (collection (snd (clear_index e))) = 0
   \<and> is_cancelled (snd (clear_index e)) = is_cancelled e
   \<and> fst (clear_index (snd (clear_index e))) = 0
   \<and> clear_index (e\<lparr>collection := []\<rparr>) = (0, e\<lparr>collection := []\<rparr>)"
  by (simp add: clear_index_def Let_def coll_delete_all coll_count_def coll_get_ids_def)

theorem clear_index_count_witness:
  "clear_index sample_explorer = (2, \<lparr>collection = [], is_cancelled = False\<rparr>)
   \<and> fst (clear_index (snd (clear_index sample_explorer))) = 0"
  using clear_index_count [of sample_explorer]
  by (simp add: sample_explorer_def clear_index_def coll_count_def coll_get_ids_def coll_delete_def)

section \<open>Search\<close>

lemma skip_candidate_ok:
  "post_filter_ok pcf \<Longrightarrow> skip_candidate pcf meta = Inr (\<not> keeps pcf meta)"
  by (cases pcf) (auto simp: post_filter_ok_def skip_candidate_def keeps_def)

lemma collect_ok:
  assumes "post_filter_ok pcf"
  shows "collect n pcf cs out
     = Inr (out @ shaped pcf (max 1 (nat (n - int (length out)))) cs)"
proof (induction cs arbitrary: out)
  case Nil
  then show ?case by (simp add: shaped_def)
next
  case (Cons c cs)
  show ?case
  proof (cases "keeps pcf (snd c)")
    case False
    then show ?thesis using Cons.IH [of out]
      by (simp add: skip_candidate_ok [OF assms] shaped_def)
  next
    case True
    show ?thesis
    proof (cases "n \<le> int (length out) + 1")
      case stop: True
      then have "max 1 (nat (n - int (length out))) = 1" by simp
      then show ?thesis using True stop
        by (simp add: skip_candidate_ok [OF assms] Let_def shaped_def)
    next
      case go: False
      have m: "max 1 (nat (n - int (length out))) = Suc (nat (n - int (length out) - 1))"
          "max 1 (nat (n - int (length (out @ [shape (fst c) (snd c)]))))
             = nat (n - int (length out) - 1)"
        using go by (auto simp: max_def)
      show ?thesis
        using True go Cons.IH [of "out @ [shape (fst c) (snd c)]"]
        unfolding m by (simp add: skip_candidate_ok [OF assms] Let_def shaped_def)
    qed
  qed
qed

lemma search_ok:
  assumes "coll_count (collection e) \<noteq> 0"
    and "prepare_filters metadata_filters = Inr (db_filters, pcf)"
    and "post_filter_ok pcf"
  shows "search store e query n metadata_filters
     = Inr (shaped pcf (max 1 (nat n)) (store (params_for e query n db_filters)),
            [params_for e query n db_filters])"
proof (cases "store (params_for e query n db_filters) = []")
  case True
  then show ?thesis using assms(1,2)
    by (simp add: search_def Let_def params_for_def shaped_def)
next
  case False
  then show ?thesis using assms(1,2)
    by (simp add: search_def Let_def params_for_def collect_ok [OF assms(3)])
qed

lemma py_in_dct: "py_in k (Dct d) = Inr (map_of d k \<noteq> None)"
  by (simp add: map_of_eq_None_iff)

lemma has_path_contains_field:
  assumes "field_condition c"
  shows "has_path_contains c = Inr (is_path_contains c)"
proof -
  from assms obtain d where c: "c = Dct d"
    by (cases c) (simp_all add: field_condition_def)
  show ?thesis
  proof (cases "map_of d ''relative_path''")
    case None
    then show ?thesis
      unfolding c has_path_contains_def is_path_contains_def py_in_dct by simp
  next
    case (Some rp)
    with assms c obtain ops where rp: "rp = Dct ops"
      by (cases rp) (simp_all add: field_condition_def)
    show ?thesis
      unfolding c has_path_contains_def is_path_contains_def py_in_dct
      using Some rp by (simp add: map_of_eq_None_iff)
  qed
qed

lemma path_contains_value_field:
  assumes "is_path_contains c"
  shows "path_contains_value c = Inr (contains_value c)"
proof -
  from assms obtain d where c: "c = Dct d"
    by (cases c) (simp_all add: is_path_contains_def)
  from assms c obtain rp where rp: "map_of d ''relative_path'' = Some rp"
    by (cases "map_of d ''relative_path''") (simp_all add: is_path_contains_def)
  from assms c rp obtain ops where ops: "rp = Dct ops"
    by (cases rp) (simp_all add: is_path_contains_def)
  from assms c rp ops have "map_of ops ''$contains'' \<noteq> None"
    by (simp add: is_path_contains_def map_of_eq_None_iff)
  then obtain v where v: "map_of ops ''$contains'' = Some v" by blast
  show ?thesis
    unfolding c path_contains_value_def contains_value_def using rp ops v by simp
qed

lemma extract_ok:
  "list_all field_condition conds \<Longrightarrow>
   extract_path_filter conds p
     = Inr (filter (\<lambda>c. \<not> is_path_contains c) conds,
            foldl (\<lambda>p c. if is_path_contains c then contains_value c else p) p conds)"
  by (induction conds arbitrary: p)
     (simp_all add: has_path_contains_field path_contains_value_field)

lemma last_wins:
  "filter is_path_contains conds \<noteq> [] \<Longrightarrow>
   foldl (\<lambda>p c. if is_path_contains c then contains_value c else p) p conds
     = contains_value (last (filter is_path_contains conds))"
  by (induction conds rule: rev_induct) auto

lemma prepare_and:
  assumes "map_of f ''$and'' = Some (Lst conds)" "list_all field_condition conds"
  shows "prepare_filters (Some f)
     = Inr (native_filter f conds,
            foldl (\<lambda>p c. if is_path_contains c then contains_value c else p) Null conds)"
  using assms by (simp add: prepare_filters_def native_filter_def Let_def extract_ok)

lemma prepare_single:
  assumes "map_of f ''$and'' = None" "map_of f ''relative_path'' = Some (Dct ops)"
    "map_of ops ''$contains'' = Some v"
  shows "prepare_filters (Some f) = Inr (dict_del ''relative_path'' f, v)"
proof -
  have "''$contains'' \<in> fst ` set ops"
    using assms(3) by (metis map_of_eq_None_iff option.distinct(1))
  then show ?thesis using assms by (simp add: prepare_filters_def)
qed

lemma shaped_paths:
  "r \<in> set (shaped (Str s) k cands) \<Longrightarrow> sublist s (path r)"
  by (auto simp: shaped_def keeps_def shape_def dest!: in_set_takeD)

text \<open>
  C8. On an empty index a search returns the empty result list and issues no query to the
  vector store, for every query text, result count and filter expression (also one whose
  rewriting would raise) and whatever the store would answer.
\<close>

theorem search_empty_index:
  "coll_count (collection e) = 0 \<Longrightarrow> search store e query n metadata_filters = Inr ([], [])"
  by (simp add: search_def)

theorem search_empty_index_witness:
  "coll_count (collection empty_explorer) = 0
   \<and> search (\<lambda>p. [(0::int, sample_meta ''a.py'')]) empty_explorer
        ''query'' 20 (Some [(''$and'', Num 3)]) = Inr ([], [])"
  using search_empty_index [of empty_explorer
      "\<lambda>p. [(0::int, sample_meta ''a.py'')]" "''query''" 20 "Some [(''$and'', Num 3)]"]
  by (simp add: coll_count_def empty_explorer_def)

text \<open>
  Where the distances are ordered numbers and the store returns the candidates by ascending
  distance, the results come by descending similarity.
\<close>

lemma similarities_descending:
  fixes cands :: "('d::linordered_idom \<times> metadata) list"
  assumes "sorted (map fst cands)"
  shows "sorted (rev (map similarity (shaped pcf k cands)))"
proof -
  let ?kept = "take k (filter (\<lambda>c. keeps pcf (snd c)) cands)"
  have "sorted (map fst (filter (\<lambda>c. keeps pcf (snd c)) cands))"
    using assms by (rule sorted_filter)
  then have "sorted (take k (map fst (filter (\<lambda>c. keeps pcf (snd c)) cands)))"
    by (rule sorted_wrt_take)
  then have "sorted_wrt (\<lambda>a b. fst a \<le> fst b) ?kept"
    by (simp add: take_map sorted_wrt_map)
  then have "sorted_wrt (\<lambda>a b. 1 - fst b \<le> 1 - fst a) ?kept"
    by (rule sorted_wrt_mono_rel [rotated]) simp
  then have "sorted (rev (map (\<lambda>c. 1 - fst c) ?kept))"
    by (simp add: sorted_wrt_rev sorted_wrt_map)
  moreover have "map similarity (shaped pcf k cands) = map (\<lambda>c. 1 - fst c) ?kept"
    by (simp add: shaped_def shape_def comp_def)
  ultimately show ?thesis by simp
qed

text \<open>
  C5. On a non-empty index, a search whose filter rewriting succeeds (with an extracted
  value that is a string or falsy) issues one query that asks the store for
  \<open>min (n * 5) count\<close> candidates; it returns the first \<open>n\<close> candidates that pass the
  post-filter, in the order in which the store returned them, hence at most \<open>n\<close> results;
  and the similarity of each result is \<open>1 - distance\<close> in the arithmetic of the distances,
  with no clamping. For \<open>n < 1\<close> this relies on the store returning no more candidates than
  it was asked for.
\<close>

theorem search_overfetch_and_rank:
  assumes "coll_count (collection e) \<noteq> 0"
    and "prepare_filters metadata_filters = Inr (db_filters, pcf)"
    and "post_filter_ok pcf"
    and "1 \<le> n \<or> length (store (params_for e query n db_filters))
                   \<le> nat (n_results (params_for e query n db_filters))"
  shows "search store e query n metadata_filters
           = Inr (shaped pcf (nat n) (store (params_for e query n db_filters)),
                  [params_for e query n db_filters])
     \<and> n_results (params_for e query n db_filters)
           = min (n * 5) (int (coll_count (collection e)))
     \<and> length (shaped pcf (nat n) (store (params_for e query n db_filters))) \<le> nat n
     \<and> shaped pcf (nat n) (store (params_for e query n db_filters))
           = map (\<lambda>c. shape (fst c) (snd c))
               (take (nat n) (filter (\<lambda>c. keeps pcf (snd c)) (store (params_for e query n db_filters))))
     \<and> map similarity (shaped pcf (nat n) (store (params_for e query n db_filters)))
           = map (\<lambda>c. 1 - fst c)
               (take (nat n) (filter (\<lambda>c. keeps pcf (snd c)) (store (params_for e query n db_filters))))"
proof -
  let ?cands = "store (params_for e query n db_filters)"
  have same: "shaped pcf (max 1 (nat n)) ?cands = shaped pcf (nat n) ?cands"
  proof (cases "1 \<le> n")
    case True
    then have "max 1 (nat n) = nat n" by simp
    then show ?thesis by simp
  next
    case False
    then have "length ?cands \<le> nat (n_results (params_for e query n db_filters))"
      using assms(4) by simp
    moreover have "n_results (params_for e query n db_filters) \<le> 0"
      using False by (simp add: params_for_def)
    ultimately have "?cands = []" by simp
    then show ?thesis by (simp add: shaped_def)
  qed
  have "search store e query n metadata_filters
      = Inr (shaped pcf (nat n) ?cands, [params_for e query n db_filters])"
    using search_ok [OF assms(1,2,3), of store query n] same by simp
  then show ?thesis
    by (simp add: shaped_def params_for_def shape_def comp_def)
qed

theorem search_overfetch_and_rank_witness:
  "coll_count (collection sample_explorer) \<noteq> 0
   \<and> prepare_filters None = Inr ([], Null)
   \<and> post_filter_ok Null
   \<and> search (\<lambda>p. [(3 :: real, sample_meta ''a.py''), (5, sample_meta ''b.py'')])
        sample_explorer ''query'' 1 None
      = Inr ([\<lparr>similarity = - 2, path = ''a.py'', locator = ''/p/a.py'', label = FileLabel,
               size_of = Some 3, modified = 0\<rparr>],
             [\<lparr>query_text = ''query'', n_results = 2, where_filter = None\<rparr>])"
proof -
  have h1: "coll_count (collection sample_explorer) \<noteq> 0"
    by (simp add: sample_explorer_def coll_count_def)
  have h2: "prepare_filters None = Inr ([], Null)"
    by (simp add: prepare_filters_def)
  have h3: "post_filter_ok Null"
    by (simp add: post_filter_ok_def)
  have h4: "(1::int) \<le> 1 \<or> length ((\<lambda>p. [(3 :: real, sample_meta ''a.py''), (5, sample_meta ''b.py'')])
                (params_for sample_explorer ''query'' 1 []))
              \<le> nat (n_results (params_for sample_explorer ''query'' 1 []))"
    by simp
  from search_overfetch_and_rank [OF h1 h2 h3 h4]
  have "search (\<lambda>p. [(3 :: real, sample_meta ''a.py''), (5, sample_meta ''b.py'')])
        sample_explorer ''query'' 1 None
      = Inr (shaped Null (nat 1) [(3 :: real, sample_meta ''a.py''), (5, sample_meta ''b.py'')],
             [params_for sample_explorer ''query'' 1 []])"
    by simp
  then show ?thesis using h1 h2 h3
    by (simp add: shaped_def keeps_def shape_def sample_meta_def params_for_def
          sample_explorer_def coll_count_def)
qed

subsection \<open>Rewriting of the filter\<close>

lemma map_of_dict_set: "map_of (dict_set k v d) k = Some v"
  by (induction d) auto

lemma map_of_dict_set_other: "k' \<noteq> k \<Longrightarrow> map_of (dict_set k v d) k' = map_of d k'"
  by (induction d) auto

lemma map_of_dict_del: "map_of (dict_del k d) k = None"
  by (simp add: dict_del_def map_of_eq_None_iff image_iff)

lemma map_of_dict_del_other: "k' \<noteq> k \<Longrightarrow> map_of (dict_del k d) k' = map_of d k'"
  by (induction d) (auto simp: dict_del_def)

lemma native_filter_and:
  "map_of (native_filter f conds) ''$and''
     = (if filter (\<lambda>c. \<not> is_path_contains c) conds = [] then None
        else Some (Lst (filter (\<lambda>c. \<not> is_path_contains c) conds)))"
  by (simp add: native_filter_def Let_def map_of_dict_set map_of_dict_del)

lemma native_filter_other:
  "k \<noteq> ''$and'' \<Longrightarrow> map_of (native_filter f conds) k = map_of f k"
  by (simp add: native_filter_def Let_def map_of_dict_set_other map_of_dict_del_other)

lemma sample_conditions:
  "field_condition (path_contains s)" "is_path_contains (path_contains s)"
  "contains_value (path_contains s) = Str s"
  "k \<noteq> ''relative_path'' \<Longrightarrow> field_condition (field_is k v)"
  "k \<noteq> ''relative_path'' \<Longrightarrow> \<not> is_path_contains (field_is k v)"
  by (simp_all add: field_condition_def is_path_contains_def contains_value_def
        path_contains_def field_is_def)

text \<open>
  C9. When the \<open>$and\<close> list of the filter holds path conditions, possibly several, the
  native filter keeps the other conditions only (and loses its \<open>$and\<close> entry when none is
  left), and the post-filter is the operand of the last path condition alone: the results
  are the first candidates that contain this last operand, whatever the operands of the
  earlier path conditions are.
\<close>

theorem last_path_condition_wins:
  assumes "coll_count (collection e) \<noteq> 0"
    and "map_of f ''$and'' = Some (Lst conds)"
    and "list_all field_condition conds"
    and "filter is_path_contains conds \<noteq> []"
    and "post_filter_ok (contains_value (last (filter is_path_contains conds)))"
  shows "search store e query n (Some f)
           = Inr (shaped (contains_value (last (filter is_path_contains conds))) (max 1 (nat n))
                    (store (params_for e query n (native_filter f conds))),
                  [params_for e query n (native_filter f conds)])
     \<and> map_of (native_filter f conds) ''$and''
           = (if filter (\<lambda>c. \<not> is_path_contains c) conds = [] then None
              else Some (Lst (filter (\<lambda>c. \<not> is_path_contains c) conds)))
     \<and> (\<forall>k. k \<noteq> ''$and'' \<longrightarrow> map_of (native_filter f conds) k = map_of f k)"
proof -
  have "prepare_filters (Some f)
      = Inr (native_filter f conds, contains_value (last (filter is_path_contains conds)))"
    using prepare_and [OF assms(2,3)] last_wins [OF assms(4), of Null] by simp
  from search_ok [OF assms(1) this assms(5), of store query n]
  show ?thesis by (simp add: native_filter_and native_filter_other)
qed

text \<open>
  With the path conditions \<open>src\<close> and \<open>.py\<close>, in that order, the result
  \<open>docs/readme.py\<close> is returned although it does not contain \<open>src\<close>.
\<close>

theorem last_path_condition_wins_witness:
  "coll_count (collection sample_explorer) \<noteq> 0
   \<and> map_of two_path_conditions ''$and''
       = Some (Lst [path_contains ''src'', field_is ''is_dir'' (Bool False), path_contains ''.py''])
   \<and> list_all field_condition
        [path_contains ''src'', field_is ''is_dir'' (Bool False), path_contains ''.py'']
   \<and> filter is_path_contains
        [path_contains ''src'', field_is ''is_dir'' (Bool False), path_contains ''.py'']
       = [path_contains ''src'', path_contains ''.py'']
   \<and> map path (fst (projr (search three_candidates sample_explorer ''query'' 20
        (Some two_path_conditions)))) = [''docs/readme.py'', ''src/a.py'']
   \<and> \<not> sublist ''src'' ''docs/readme.py''
   \<and> map where_filter (snd (projr (search three_candidates sample_explorer ''query'' 20
        (Some two_path_conditions))))
       = [Some [(''$and'', Lst [field_is ''is_dir'' (Bool False)])]]"
proof -
  let ?conds = "[path_contains ''src'', field_is ''is_dir'' (Bool False), path_contains ''.py'']"
  have h1: "coll_count (collection sample_explorer) \<noteq> 0"
    by (simp add: sample_explorer_def coll_count_def)
  have h2: "map_of two_path_conditions ''$and'' = Some (Lst ?conds)"
    by (simp add: two_path_conditions_def)
  have h3: "list_all field_condition ?conds"
    by (simp add: sample_conditions)
  have h4: "filter is_path_contains ?conds = [path_contains ''src'', path_contains ''.py'']"
    by (simp add: sample_conditions)
  then have h4': "filter is_path_contains ?conds \<noteq> []" by simp
  have h5: "post_filter_ok (contains_value (last (filter is_path_contains ?conds)))"
    unfolding h4 by (simp add: sample_conditions post_filter_ok_def)
  have nf: "native_filter two_path_conditions ?conds
      = [(''$and'', Lst [field_is ''is_dir'' (Bool False)])]"
    by (simp add: native_filter_def Let_def sample_conditions two_path_conditions_def)
  from last_path_condition_wins [OF h1 h2 h3 h4' h5, of three_candidates "''query''" 20]
  have s: "search three_candidates sample_explorer ''query'' 20 (Some two_path_conditions)
      = Inr (shaped (Str ''.py'') 20 (three_candidates
               (params_for sample_explorer ''query'' 20 [(''$and'', Lst [field_is ''is_dir'' (Bool False)])])),
             [params_for sample_explorer ''query'' 20 [(''$and'', Lst [field_is ''is_dir'' (Bool False)])]])"
    unfolding h4 nf by (simp add: sample_conditions)
  have a: "map path (fst (projr (search three_candidates sample_explorer ''query'' 20
        (Some two_path_conditions)))) = [''docs/readme.py'', ''src/a.py'']"
  proof -
    have "sublist ''.py'' ''docs/readme.py''" "\<not> sublist ''.py'' ''src/a.txt''"
      "sublist ''.py'' ''src/a.py''"
      by code_simp+
    then show ?thesis
      unfolding s
      by (simp add: shaped_def keeps_def shape_def three_candidates_def sample_meta_def)
  qed
  have b: "map where_filter (snd (projr (search three_candidates sample_explorer ''query'' 20
        (Some two_path_conditions))))
       = [Some [(''$and'', Lst [field_is ''is_dir'' (Bool False)])]]"
    unfolding s by (simp add: params_for_def)
  have c: "\<not> sublist ''src'' ''docs/readme.py''" by code_simp
  from h1 h2 h3 h4 a b c show ?thesis by blast
qed

text \<open>
  The extraction looks at the direct elements of the top-level \<open>$and\<close> list only: a path
  condition nested one level deeper stays in the native filter and no post-filter is
  applied. A \<open>relative_path\<close> entry whose value is a plain string containing the text
  \<open>$contains\<close> makes the rewriting raise.
\<close>

lemma nested_path_condition_kept:
  "search one_candidate sample_explorer ''query'' 20 (Some nested_foo)
     = Inr ([shape 0 (sample_meta ''bar.txt'')],
            [\<lparr>query_text = ''query'', n_results = 2, where_filter = Some nested_foo\<rparr>])"
  by code_simp

lemma literal_with_operator_text_raises:
  "search one_candidate sample_explorer ''query'' 20
     (Some [(''relative_path'', Str ''a$containsb'')]) = Inl TypeError"
  by code_simp

text \<open>
  C2 (as amended). When the filter holds exactly one path condition with a string operand,
  either as the \<open>relative_path\<close> entry of a filter without \<open>$and\<close>, or as one element of
  the top-level \<open>$and\<close> list of field conditions, the condition is taken out of the native
  filter: the query carries the other entries and conditions unchanged. The operand is
  applied to the metadata of each candidate after retrieval, so the relative path of every
  result contains it.
\<close>

theorem single_path_condition:
  "(coll_count (collection e) \<noteq> 0 \<and> map_of f ''$and'' = None
      \<and> map_of f ''relative_path'' = Some (Dct ops) \<and> map_of ops ''$contains'' = Some (Str s)
    \<longrightarrow> search store e query n (Some f)
          = Inr (shaped (Str s) (max 1 (nat n))
                   (store (params_for e query n (dict_del ''relative_path'' f))),
                 [params_for e query n (dict_del ''relative_path'' f)])
        \<and> map_of (dict_del ''relative_path'' f) ''relative_path'' = None
        \<and> (\<forall>k. k \<noteq> ''relative_path''
               \<longrightarrow> map_of (dict_del ''relative_path'' f) k = map_of f k))
   \<and> (coll_count (collection e) \<noteq> 0 \<and> map_of f ''$and'' = Some (Lst conds)
      \<and> list_all field_condition conds \<and> filter is_path_contains conds = [c]
      \<and> contains_value c = Str s
    \<longrightarrow> search store e query n (Some f)
          = Inr (shaped (Str s) (max 1 (nat n))
                   (store (params_for e query n (native_filter f conds))),
                 [params_for e query n (native_filter f conds)])
        \<and> map_of (native_filter f conds) ''$and''
            = (if conds = [c] then None else Some (Lst (removeAll c conds)))
        \<and> (\<forall>k. k \<noteq> ''$and'' \<longrightarrow> map_of (native_filter f conds) k = map_of f k))
   \<and> (\<forall>r \<in> set (shaped (Str s) m cands). sublist s (path r))"
proof (intro conjI impI)
  assume a: "coll_count (collection e) \<noteq> 0 \<and> map_of f ''$and'' = None
      \<and> map_of f ''relative_path'' = Some (Dct ops) \<and> map_of ops ''$contains'' = Some (Str s)"
  then have "prepare_filters (Some f) = Inr (dict_del ''relative_path'' f, Str s)"
    using prepare_single by blast
  moreover have "post_filter_ok (Str s)" by (simp add: post_filter_ok_def)
  ultimately show "search store e query n (Some f)
          = Inr (shaped (Str s) (max 1 (nat n))
                   (store (params_for e query n (dict_del ''relative_path'' f))),
                 [params_for e query n (dict_del ''relative_path'' f)])"
    using a search_ok by blast
next
  show "map_of (dict_del ''relative_path'' f) ''relative_path'' = None"
    by (rule map_of_dict_del)
next
  show "\<forall>k. k \<noteq> ''relative_path'' \<longrightarrow> map_of (dict_del ''relative_path'' f) k = map_of f k"
    by (simp add: map_of_dict_del_other)
next
  assume b: "coll_count (collection e) \<noteq> 0 \<and> map_of f ''$and'' = Some (Lst conds)
      \<and> list_all field_condition conds \<and> filter is_path_contains conds = [c]
      \<and> contains_value c = Str s"
  then have "foldl (\<lambda>p c. if is_path_contains c then contains_value c else p) Null conds = Str s"
    using last_wins [of conds Null] by simp
  then have "prepare_filters (Some f) = Inr (native_filter f conds, Str s)"
    using prepare_and b by simp
  moreover have "post_filter_ok (Str s)" by (simp add: post_filter_ok_def)
  ultimately show "search store e query n (Some f)
          = Inr (shaped (Str s) (max 1 (nat n))
                   (store (params_for e query n (native_filter f conds))),
                 [params_for e query n (native_filter f conds)])"
    using b search_ok by blast
next
  assume b: "coll_count (collection e) \<noteq> 0 \<and> map_of f ''$and'' = Some (Lst conds)
      \<and> list_all field_condition conds \<and> filter is_path_contains conds = [c]
      \<and> contains_value c = Str s"
  have one: "is_path_contains x \<longleftrightarrow> x = c" if "x \<in> set conds" for x
  proof -
    have "set (filter is_path_contains conds) = {c}" using b by simp
    then show ?thesis using that by auto
  qed
  then have rem: "filter (\<lambda>x. \<not> is_path_contains x) conds = removeAll c conds"
    by (induction conds) auto
  have "filter (\<lambda>x. \<not> is_path_contains x) conds = [] \<longleftrightarrow> filter is_path_contains conds = conds"
    by (simp add: filter_empty_conv filter_id_conv)
  then have "removeAll c conds = [] \<longleftrightarrow> conds = [c]"
    using b rem by auto
  then show "map_of (native_filter f conds) ''$and''
            = (if conds = [c] then None else Some (Lst (removeAll c conds)))"
    by (simp add: native_filter_and rem)
next
  show "\<forall>k. k \<noteq> ''$and'' \<longrightarrow> map_of (native_filter f conds) k = map_of f k"
    by (simp add: native_filter_other)
next
  show "\<forall>r \<in> set (shaped (Str s) m cands). sublist s (path r)"
    using shaped_paths by blast
qed

theorem single_path_condition_witness:
  "coll_count (collection sample_explorer) \<noteq> 0
   \<and> map_of src_local ''$and'' = None
   \<and> map_of src_local ''relative_path'' = Some (Dct [(''$contains'', Str ''src'')])
   \<and> search three_candidates sample_explorer ''query'' 20 (Some src_local)
       = Inr ([shape (1 / 2) (sample_meta ''src/a.txt''), shape (3 / 4) (sample_meta ''src/a.py'')],
              [\<lparr>query_text = ''query'', n_results = 2,
                where_filter = Some [(''source_type'', Str ''local'')]\<rparr>])
   \<and> map_of files_py ''$and''
       = Some (Lst [field_is ''is_dir'' (Bool False), path_contains ''.py''])
   \<and> filter is_path_contains [field_is ''is_dir'' (Bool False), path_contains ''.py'']
       = [path_contains ''.py'']
   \<and> search three_candidates sample_explorer ''query'' 20 (Some files_py)
       = Inr ([shape (1 / 4) (sample_meta ''docs/readme.py''), shape (3 / 4) (sample_meta ''src/a.py'')],
              [\<lparr>query_text = ''query'', n_results = 2,
                where_filter = Some [(''$and'', Lst [field_is ''is_dir'' (Bool False)])]\<rparr>])"
proof -
  let ?conds = "[field_is ''is_dir'' (Bool False), path_contains ''.py'']"
  have h1: "coll_count (collection sample_explorer) \<noteq> 0"
    by (simp add: sample_explorer_def coll_count_def)
  have a1: "map_of src_local ''$and'' = None"
    and a2: "map_of src_local ''relative_path'' = Some (Dct [(''$contains'', Str ''src'')])"
    and a3: "map_of [(''$contains'', Str ''src'')] ''$contains'' = Some (Str ''src'')"
    by (simp_all add: src_local_def)
  have b1: "map_of files_py ''$and'' = Some (Lst ?conds)"
    by (simp add: files_py_def)
  have b2: "list_all field_condition ?conds"
    and b3: "filter is_path_contains ?conds = [path_contains ''.py'']"
    and b4: "contains_value (path_contains ''.py'') = Str ''.py''"
    by (simp_all add: sample_conditions)
  have sub: "\<not> sublist ''src'' ''docs/readme.py''" "sublist ''src'' ''src/a.txt''"
    "sublist ''src'' ''src/a.py''" "sublist ''.py'' ''docs/readme.py''"
    "\<not> sublist ''.py'' ''src/a.txt''" "sublist ''.py'' ''src/a.py''"
    by code_simp+
  have da: "dict_del ''relative_path'' src_local = [(''source_type'', Str ''local'')]"
    by (simp add: dict_del_def src_local_def)
  have nb: "native_filter files_py ?conds = [(''$and'', Lst [field_is ''is_dir'' (Bool False)])]"
    by (simp add: native_filter_def Let_def sample_conditions files_py_def)
  have n: "n_results (params_for sample_explorer ''query'' 20 d) = 2" for d
    by (simp add: params_for_def sample_explorer_def coll_count_def)
  from single_path_condition [where e = sample_explorer and f = src_local
      and ops = "[(''$contains'', Str ''src'')]" and s = "''src''" and store = three_candidates
      and query = "''query''" and n = 20 and conds = "[]" and c = Null and m = 0 and cands = "[]"]
    h1 a1 a2 a3
  have A: "search three_candidates sample_explorer ''query'' 20 (Some src_local)
       = Inr ([shape (1 / 2) (sample_meta ''src/a.txt''), shape (3 / 4) (sample_meta ''src/a.py'')],
              [\<lparr>query_text = ''query'', n_results = 2,
                where_filter = Some [(''source_type'', Str ''local'')]\<rparr>])"
    using sub unfolding da
    by (simp add: shaped_def keeps_def three_candidates_def sample_meta_def params_for_def
          sample_explorer_def coll_count_def)
  from single_path_condition [where e = sample_explorer and f = files_py
      and ops = "[]" and s = "''.py''" and store = three_candidates
      and query = "''query''" and n = 20 and conds = ?conds and c = "path_contains ''.py''"
      and m = 0 and cands = "[]"]
    h1 b1 b2 b3 b4
  have B: "search three_candidates sample_explorer ''query'' 20 (Some files_py)
       = Inr ([shape (1 / 4) (sample_meta ''docs/readme.py''), shape (3 / 4) (sample_meta ''src/a.py'')],
              [\<lparr>query_text = ''query'', n_results = 2,
                where_filter = Some [(''$and'', Lst [field_is ''is_dir'' (Bool False)])]\<rparr>])"
    using sub unfolding nb
    by (simp add: shaped_def keeps_def three_candidates_def sample_meta_def params_for_def
          sample_explorer_def coll_count_def)
  from h1 a1 a2 A b1 b3 B show ?thesis by blast
qed

text \<open>
  C2 as stated fails when the \<open>$and\<close> list holds two path conditions: under the conditions
  \<open>foo\<close> and \<open>bar\<close> the result \<open>bar.txt\<close> is returned, and it does not contain \<open>foo\<close>.
\<close>

theorem earlier_path_condition_dropped:
  "map_of foo_and_bar ''$and'' = Some (Lst [path_contains ''foo'', path_contains ''bar''])
   \<and> search one_candidate sample_explorer ''query'' 20 (Some foo_and_bar)
       = Inr ([shape 0 (sample_meta ''bar.txt'')],
              [\<lparr>query_text = ''query'', n_results = 2, where_filter = None\<rparr>])
   \<and> path (shape (0::real) (sample_meta ''bar.txt'')) = ''bar.txt''
   \<and> \<not> sublist ''foo'' ''bar.txt''"
  by code_simp

end
